theory Spec2Isabelle
  imports Main "HOL-Library.Word" "HOL-Library.Signed_Division"
begin

unbundle bit_operations_syntax

section \<open>KCP control block (kcp.cpp): data model\<close>

text \<open>
  Machine integers. \<open>uint32_t\<close> is a 32-bit word with wrap-around arithmetic and the
  unsigned order of \<open>32 word\<close>. \<open>int\<close> and \<open>int32_t\<close> values are kept in 32-bit words
  as well and are read with \<open>sint\<close> wherever the source compares, divides or converts
  them as signed numbers; signed arithmetic that leaves the range wraps around (C++
  leaves it undefined). \<open>size_t\<close> values (container sizes) are natural numbers.

  The header kcp.hpp is not among the sources. The member types used below are the ones
  the casts and accessors of kcp.cpp show: the four \<open>rx_\<close> members are \<open>int32_t\<close>
  (\<open>int32_t& rx_min_rto()\<close>, \<open>static_cast<uint32_t>(this->rx_rto)\<close>), \<open>fastresend\<close>,
  \<open>fastlimit\<close>, \<open>nocwnd\<close>, \<open>stream\<close> and \<open>logmask\<close> are \<open>int\<close>, every other
  scalar member of the control block and of a segment is \<open>uint32_t\<close>.
\<close>

type_synonym u8 = "8 word"
type_synonym u16 = "16 word"
type_synonym u32 = "32 word"
type_synonym i32 = "32 word"

text \<open>
  The width of \<open>long\<close> is fixed by the platform, not by the source: 32 bits under the
  ILP32 and LLP64 data models, 64 bits under LP64. The functions that compute with
  \<open>long\<close> take the data model as their first argument.
\<close>

datatype data_model = LONG32 | LONG64

definition IKCP_RTO_NDL :: u32 where "IKCP_RTO_NDL = 30"
definition IKCP_RTO_MIN :: u32 where "IKCP_RTO_MIN = 100"
definition IKCP_RTO_DEF :: u32 where "IKCP_RTO_DEF = 200"
definition IKCP_RTO_MAX :: u32 where "IKCP_RTO_MAX = 60000"
definition IKCP_CMD_PUSH :: u32 where "IKCP_CMD_PUSH = 81"
definition IKCP_CMD_ACK :: u32 where "IKCP_CMD_ACK = 82"
definition IKCP_CMD_WASK :: u32 where "IKCP_CMD_WASK = 83"
definition IKCP_CMD_WINS :: u32 where "IKCP_CMD_WINS = 84"
definition IKCP_ASK_SEND :: u32 where "IKCP_ASK_SEND = 1"
definition IKCP_ASK_TELL :: u32 where "IKCP_ASK_TELL = 2"
definition IKCP_WND_SND :: u32 where "IKCP_WND_SND = 32"
definition IKCP_WND_RCV :: u32 where "IKCP_WND_RCV = 128"
definition IKCP_MTU_DEF :: u32 where "IKCP_MTU_DEF = 1400"
definition IKCP_ACK_FAST :: u32 where "IKCP_ACK_FAST = 3"
definition IKCP_INTERVAL :: u32 where "IKCP_INTERVAL = 100"
definition IKCP_OVERHEAD :: u32 where "IKCP_OVERHEAD = 24"
definition IKCP_DEADLINK :: u32 where "IKCP_DEADLINK = 20"
definition IKCP_THRESH_INIT :: u32 where "IKCP_THRESH_INIT = 2"
definition IKCP_THRESH_MIN :: u32 where "IKCP_THRESH_MIN = 2"
definition IKCP_PROBE_INIT :: u32 where "IKCP_PROBE_INIT = 7000"
definition IKCP_PROBE_LIMIT :: u32 where "IKCP_PROBE_LIMIT = 120000"
definition IKCP_FASTACK_LIMIT :: u32 where "IKCP_FASTACK_LIMIT = 5"

text \<open>
  A segment (\<open>internal_impl::segment\<close>): the wire header, the retransmission state and
  the payload. \<open>segment(size)\<close> builds a segment whose payload is \<open>size\<close> zero bytes and
  whose other members are 0.
\<close>

record segment =
  conv :: u32
  cmd :: u32
  frg :: u32
  wnd :: u32
  ts :: u32
  sn :: u32
  una :: u32
  resendts :: u32
  rto :: u32
  fastack :: u32
  xmit :: u32
  data :: "u8 list"

definition new_segment :: "nat \<Rightarrow> segment" where
  "new_segment n =
     \<lparr>conv = 0, cmd = 0, frg = 0, wnd = 0, ts = 0, sn = 0, una = 0, resendts = 0,
      rto = 0, fastack = 0, xmit = 0, data = replicate n 0\<rparr>"

text \<open>
  The control block. Its members \<open>conv\<close> and \<open>xmit\<close> are named \<open>kcp_conv\<close> and
  \<open>kcp_xmit\<close> here, since a segment has members of the same names. The \<open>std::list\<close>
  queues and the \<open>std::vector\<close> ack list are lists. The user pointer, the callbacks
  and the staging buffer hold no protocol state and are left out: what flush hands to the
  output callback is returned by the model of flush.
\<close>

record kcp =
  kcp_conv :: u32
  mtu :: u32
  mss :: u32
  state :: u32
  snd_una :: u32
  snd_nxt :: u32
  rcv_nxt :: u32
  ts_recent :: u32
  ts_lastack :: u32
  ssthresh :: u32
  rx_rttval :: i32
  rx_srtt :: i32
  rx_rto :: i32
  rx_minrto :: i32
  snd_wnd :: u32
  rcv_wnd :: u32
  rmt_wnd :: u32
  cwnd :: u32
  probe :: u32
  current :: u32
  interval :: u32
  ts_flush :: u32
  kcp_xmit :: u32
  nodelay :: u32
  updated :: u32
  ts_probe :: u32
  probe_wait :: u32
  dead_link :: u32
  incr :: u32
  snd_queue :: "segment list"
  rcv_queue :: "segment list"
  snd_buf :: "segment list"
  rcv_buf :: "segment list"
  acklist :: "(u32 \<times> u32) list"
  ackblock :: u32
  fastresend :: i32
  fastlimit :: i32
  nocwnd :: i32
  stream :: i32
  logmask :: i32

section \<open>Wire codec\<close>

text \<open>Little-endian encoders and decoders; a decoder returns the value and the rest.\<close>

definition encode8u :: "u8 \<Rightarrow> u8 list" where
  "encode8u c = [c]"

definition encode16u :: "u16 \<Rightarrow> u8 list" where
  "encode16u w = [ucast w, ucast (drop_bit 8 w)]"

definition encode32u :: "u32 \<Rightarrow> u8 list" where
  "encode32u l = [ucast l, ucast (drop_bit 8 l), ucast (drop_bit 16 l), ucast (drop_bit 24 l)]"

definition byte_at :: "u8 list \<Rightarrow> nat \<Rightarrow> u8" where
  "byte_at p i = (if i < length p then p ! i else 0)"

definition decode8u :: "u8 list \<Rightarrow> u8 \<times> u8 list" where
  "decode8u p = (byte_at p 0, drop 1 p)"

definition decode16u :: "u8 list \<Rightarrow> u16 \<times> u8 list" where
  "decode16u p = (ucast (byte_at p 0) + push_bit 8 (ucast (byte_at p 1)), drop 2 p)"

definition decode32u :: "u8 list \<Rightarrow> u32 \<times> u8 list" where
  "decode32u p =
     (ucast (byte_at p 0) + push_bit 8 (ucast (byte_at p 1) + push_bit 8
        (ucast (byte_at p 2) + push_bit 8 (ucast (byte_at p 3)))), drop 4 p)"

definition encode_seg :: "segment \<Rightarrow> u8 list" where
  "encode_seg seg =
     encode32u (conv seg) @ encode8u (ucast (cmd seg)) @ encode8u (ucast (frg seg)) @
     encode16u (ucast (wnd seg)) @ encode32u (ts seg) @ encode32u (sn seg) @
     encode32u (una seg) @ encode32u (word_of_nat (length (data seg)))"

definition ibound :: "u32 \<Rightarrow> u32 \<Rightarrow> u32 \<Rightarrow> u32" where
  "ibound lower middle upper = min (max lower middle) upper"

text \<open>
  The conversion of a \<open>uint32_t\<close> to \<open>long\<close>: a 32-bit \<open>long\<close> reads the value as a
  signed number, a 64-bit \<open>long\<close> holds the unsigned value. \<open>_itimediff\<close> returns
  \<open>static_cast<long>(later - earlier)\<close>, with the difference computed in \<open>uint32_t\<close>.
\<close>

definition long_of_u32 :: "data_model \<Rightarrow> u32 \<Rightarrow> int" where
  "long_of_u32 dm x = (case dm of LONG32 \<Rightarrow> sint x | LONG64 \<Rightarrow> uint x)"

definition itimediff :: "data_model \<Rightarrow> u32 \<Rightarrow> u32 \<Rightarrow> int" where
  "itimediff dm later earlier = long_of_u32 dm (later - earlier)"

section \<open>Construction\<close>

definition kcp_new :: "u32 \<Rightarrow> kcp" where
  "kcp_new c =
     \<lparr>kcp_conv = c, mtu = IKCP_MTU_DEF, mss = IKCP_MTU_DEF - IKCP_OVERHEAD, state = 0,
      snd_una = 0, snd_nxt = 0, rcv_nxt = 0, ts_recent = 0, ts_lastack = 0,
      ssthresh = IKCP_THRESH_INIT, rx_rttval = 0, rx_srtt = 0, rx_rto = IKCP_RTO_DEF,
      rx_minrto = IKCP_RTO_MIN, snd_wnd = IKCP_WND_SND, rcv_wnd = IKCP_WND_RCV,
      rmt_wnd = IKCP_WND_RCV, cwnd = 0, probe = 0, current = 0, interval = IKCP_INTERVAL,
      ts_flush = IKCP_INTERVAL, kcp_xmit = 0, nodelay = 0, updated = 0, ts_probe = 0,
      probe_wait = 0, dead_link = IKCP_DEADLINK, incr = 0, snd_queue = [], rcv_queue = [],
      snd_buf = [], rcv_buf = [], acklist = [], ackblock = 0, fastresend = 0,
      fastlimit = IKCP_FASTACK_LIMIT, nocwnd = 0, stream = 0, logmask = 0\<rparr>"

section \<open>Application receive\<close>

text \<open>The loop of \<open>PeekSize\<close>: payload sizes are added up to the first segment with \<open>frg == 0\<close>.\<close>

fun peek_length :: "segment list \<Rightarrow> i32 \<Rightarrow> i32" where
  "peek_length [] len = len"
| "peek_length (seg # segs) len =
     (let len' = len + word_of_nat (length (data seg))
      in if frg seg = 0 then len' else peek_length segs len')"

definition PeekSize :: "kcp \<Rightarrow> i32" where
  "PeekSize k =
     (case rcv_queue k of
        [] \<Rightarrow> - 1
      | seg # _ \<Rightarrow>
          if frg seg = 0 then word_of_nat (length (data seg))
          else if length (rcv_queue k) < unat (frg seg) + 1 then - 1
          else peek_length (rcv_queue k) 0)"

text \<open>
  The merge loop of \<open>receive\<close>: it walks the queue from the front, copies each payload,
  adds its size to \<open>len\<close>, erases the segment unless peeking, and stops after the first
  segment with \<open>frg == 0\<close>. The result is the bytes copied, \<open>len\<close> and the queue left.
\<close>

fun merge_fragment :: "bool \<Rightarrow> segment list \<Rightarrow> i32 \<Rightarrow> u8 list \<times> i32 \<times> segment list" where
  "merge_fragment ispeek [] len = ([], len, [])"
| "merge_fragment ispeek (seg # segs) len =
     (let len' = len + word_of_nat (length (data seg))
      in if frg seg = 0 then (data seg, len', if ispeek then seg # segs else segs)
         else (case merge_fragment ispeek segs len' of
                 (bytes, len'', q) \<Rightarrow> (data seg @ bytes, len'', if ispeek then seg # q else q)))"

text \<open>
  The loop that moves available data from \<open>rcv_buf\<close> to \<open>rcv_queue\<close> (written out twice
  in the source, in \<open>receive\<close> and in \<open>parse_data\<close>): while the front of \<open>rcv_buf\<close> has
  \<open>sn == rcv_nxt\<close> and the queue is shorter than \<open>rcv_wnd\<close>, splice it to the end of
  the queue and increment \<open>rcv_nxt\<close>.
\<close>

fun move_loop :: "segment list \<Rightarrow> segment list \<Rightarrow> u32 \<Rightarrow> u32 \<Rightarrow> segment list \<times> segment list \<times> u32" where
  "move_loop [] q nxt w = ([], q, nxt)"
| "move_loop (seg # buf) q nxt w =
     (if sn seg = nxt \<and> length q < unat w then move_loop buf (q @ [seg]) (nxt + 1) w
      else (seg # buf, q, nxt))"

definition move_available :: "kcp \<Rightarrow> kcp" where
  "move_available k =
     (case move_loop (rcv_buf k) (rcv_queue k) (rcv_nxt k) (rcv_wnd k) of
        (buf, q, nxt) \<Rightarrow> k\<lparr>rcv_buf := buf, rcv_queue := q, rcv_nxt := nxt\<rparr>)"

text \<open>
  \<open>receive(char *buffer, int len)\<close>. The caller's buffer is \<open>None\<close> for a null pointer
  and its contents otherwise; the result is the return value, the buffer after the call
  and the control block. The assertion \<open>len == peeksize\<close> always holds (lemma
  \<open>receive_assertion\<close> below).
\<close>

definition receive :: "kcp \<Rightarrow> u8 list option \<Rightarrow> i32 \<Rightarrow> i32 \<times> u8 list option \<times> kcp" where
  "receive k buffer len0 =
     (let ispeek = (sint len0 < 0) in
      if rcv_queue k = [] then (- 1, buffer, k)
      else
        let len = (if sint len0 < 0 then - len0 else len0);
            peeksize = PeekSize k
        in if sint peeksize < 0 then (- 2, buffer, k)
           else if sint peeksize > sint len then (- 3, buffer, k)
           else
             let recover = (unat (rcv_wnd k) \<le> length (rcv_queue k)) in
             (case merge_fragment ispeek (rcv_queue k) 0 of
                (bytes, len', q) \<Rightarrow>
                  let k1 = move_available (k\<lparr>rcv_queue := q\<rparr>);
                      k2 = (if length (rcv_queue k1) < unat (rcv_wnd k1) \<and> recover
                            then k1\<lparr>probe := probe k1 OR IKCP_ASK_TELL\<rparr> else k1)
                  in (len', map_option (\<lambda>b. bytes @ drop (length bytes) b) buffer, k2)))"

text \<open>\<open>receive(std::vector<char> &buffer)\<close>: the vector is the list of its elements.\<close>

definition receive_vec :: "kcp \<Rightarrow> u8 list \<Rightarrow> i32 \<times> u8 list \<times> kcp" where
  "receive_vec k buffer =
     (let peeksize = PeekSize k in
      if sint peeksize < 0 then (- 2, buffer, k)
      else
        let buffer1 = (if length buffer < unat peeksize
                       then buffer @ replicate (unat peeksize - length buffer) 0 else buffer)
        in (case receive k (Some buffer1) (word_of_nat (length buffer1)) of
              (r, b, k') \<Rightarrow> (r, (case b of Some bs \<Rightarrow> bs | None \<Rightarrow> buffer1), k')))"

section \<open>Application send\<close>

text \<open>
  \<open>std::copy_n(src, n, dst.begin())\<close> overwrites the first \<open>n\<close> bytes of \<open>dst\<close>;
  \<open>resize\<close> is \<open>std::vector::resize\<close>, which pads with zero bytes.
\<close>

definition copy_n :: "u8 list \<Rightarrow> nat \<Rightarrow> u8 list \<Rightarrow> u8 list" where
  "copy_n src n dst = take n src @ drop (min n (length src)) dst"

definition resize :: "u8 list \<Rightarrow> nat \<Rightarrow> u8 list" where
  "resize d n = take n d @ replicate (n - length d) 0"

text \<open>
  The fragment loop of \<open>send\<close>, for \<open>i\<close> up to \<open>count\<close>: the segments it emplaces at the
  back of \<open>snd_queue\<close>, in order. The caller's buffer is \<open>None\<close> for a null pointer and
  the bytes from the current position on otherwise.
\<close>

function fragment_loop :: "i32 \<Rightarrow> u32 \<Rightarrow> nat \<Rightarrow> nat \<Rightarrow> u8 list option \<Rightarrow> i32 \<Rightarrow> segment list" where
  "fragment_loop strm m count i buffer len =
     (if i < count then
        let sz = (if sint len > sint m then m else len);
            seg0 = new_segment (nat (sint sz));
            seg1 = (case buffer of
                      Some b \<Rightarrow> if sint len > 0
                                then seg0\<lparr>data := copy_n b (nat (sint sz)) (data seg0)\<rparr> else seg0
                    | None \<Rightarrow> seg0);
            seg2 = seg1\<lparr>frg := (if strm = 0 then word_of_nat (count - i - 1) else 0)\<rparr>
        in seg2 # fragment_loop strm m count (Suc i) (map_option (drop (nat (sint sz))) buffer) (len - sz)
      else [])"
  by pat_completeness auto
termination
  by (relation "measure (\<lambda>(strm, m, count, i, buffer, len). count - i)") auto

declare fragment_loop.simps [simp del]

text \<open>
  The stream-mode prologue of \<open>send\<close>: when the queue is non-empty and its last segment
  holds fewer than \<open>mss\<close> bytes, the segment is extended. The result is the queue, the
  buffer position and the length left.
\<close>

definition append_to_tail :: "kcp \<Rightarrow> u8 list option \<Rightarrow> i32 \<Rightarrow> segment list \<times> u8 list option \<times> i32" where
  "append_to_tail k buffer len =
     (if snd_queue k = [] then (snd_queue k, buffer, len)
      else
        let seg = last (snd_queue k) in
        if length (data seg) < unat (mss k) then
          let capacity = mss k - word_of_nat (length (data seg));
              extend = (if sint len < sint capacity then len else capacity);
              old_size = length (data seg);
              d1 = resize (data seg) (nat (int old_size + sint extend));
              d2 = (case buffer of
                      Some b \<Rightarrow> take old_size d1 @ copy_n b (nat (sint extend)) (drop old_size d1)
                    | None \<Rightarrow> d1)
          in (butlast (snd_queue k) @ [seg\<lparr>data := d2, frg := 0\<rparr>],
              map_option (drop (nat (sint extend))) buffer, len - extend)
        else (snd_queue k, buffer, len))"

text \<open>
  \<open>send(const char *buffer, int len)\<close>. \<open>None\<close> is the failed assertion \<open>mss > 0\<close>.
\<close>

definition send :: "kcp \<Rightarrow> u8 list option \<Rightarrow> i32 \<Rightarrow> (i32 \<times> kcp) option" where
  "send k buffer len0 =
     (if mss k = 0 then None
      else if sint len0 < 0 then Some (- 1, k)
      else
        (case (if stream k \<noteq> 0 then append_to_tail k buffer len0
               else (snd_queue k, buffer, len0)) of
           (q, buffer1, len) \<Rightarrow>
             let k1 = k\<lparr>snd_queue := q\<rparr> in
             if stream k \<noteq> 0 \<and> sint len \<le> 0 then Some (0, k1)
             else
               let count0 = (if sint len \<le> sint (mss k) then 1
                             else (len + mss k - 1) div mss k) in
               if sint count0 \<ge> sint IKCP_WND_RCV then Some (- 2, k1)
               else
                 let count = (if count0 = 0 then 1 else count0) in
                 Some (0, k1\<lparr>snd_queue :=
                            q @ fragment_loop (stream k) (mss k) (nat (sint count)) 0 buffer1 len\<rparr>)))"

section \<open>Ingress\<close>

text \<open>
  A \<open>long\<close> value is an integer. \<open>long_of_u32\<close> is the conversion of a \<open>uint32_t\<close> to
  \<open>long\<close>, and \<open>long_wrap\<close> brings the result of an operation on \<open>long\<close> back into
  the range of the type.
\<close>

definition long_wrap :: "data_model \<Rightarrow> int \<Rightarrow> int" where
  "long_wrap dm v =
     (case dm of LONG32 \<Rightarrow> sint (word_of_int v :: 32 word)
               | LONG64 \<Rightarrow> sint (word_of_int v :: 64 word))"

text \<open>
  \<open>update_ack(int32_t rtt)\<close>. \<open>delta\<close> is a \<open>long\<close>; the products and the second
  quotient are computed in \<open>int\<close>; \<open>/\<close> truncates towards zero (\<open>sdiv\<close>); the sum for
  \<open>rto\<close> and \<open>_ibound_\<close> are computed in \<open>uint32_t\<close>.
\<close>

definition update_ack :: "data_model \<Rightarrow> kcp \<Rightarrow> i32 \<Rightarrow> kcp" where
  "update_ack dm k rtt =
     (let k1 =
        (if rx_srtt k = 0
         then k\<lparr>rx_srtt := rtt, rx_rttval := word_of_int (sint rtt sdiv 2)\<rparr>
         else
           let delta0 = sint (rtt - rx_srtt k);
               delta = (if delta0 < 0 then long_wrap dm (- delta0) else delta0);
               rttval = word_of_int (long_wrap dm (sint (3 * rx_rttval k) + delta) sdiv 4);
               srtt = word_of_int (sint (7 * rx_srtt k + rtt) sdiv 8)
           in k\<lparr>rx_rttval := rttval, rx_srtt := (if sint srtt < 1 then 1 else srtt)\<rparr>);
          rto = rx_srtt k1 + max (interval k1) (4 * rx_rttval k1)
      in k1\<lparr>rx_rto := ibound (rx_minrto k1) rto IKCP_RTO_MAX\<rparr>)"

definition shrink_buffer :: "kcp \<Rightarrow> kcp" where
  "shrink_buffer k =
     (case snd_buf k of
        seg # _ \<Rightarrow> k\<lparr>snd_una := sn seg\<rparr>
      | [] \<Rightarrow> k\<lparr>snd_una := snd_nxt k\<rparr>)"

fun ack_loop :: "data_model \<Rightarrow> u32 \<Rightarrow> segment list \<Rightarrow> segment list" where
  "ack_loop dm s [] = []"
| "ack_loop dm s (seg # segs) =
     (if s = sn seg then segs
      else if itimediff dm s (sn seg) < 0 then seg # segs
      else seg # ack_loop dm s segs)"

definition parse_ack :: "data_model \<Rightarrow> kcp \<Rightarrow> u32 \<Rightarrow> kcp" where
  "parse_ack dm k s =
     (if itimediff dm s (snd_una k) < 0 \<or> itimediff dm s (snd_nxt k) \<ge> 0 then k
      else k\<lparr>snd_buf := ack_loop dm s (snd_buf k)\<rparr>)"

fun una_loop :: "data_model \<Rightarrow> u32 \<Rightarrow> segment list \<Rightarrow> segment list" where
  "una_loop dm u [] = []"
| "una_loop dm u (seg # segs) =
     (if itimediff dm u (sn seg) > 0 then una_loop dm u segs else seg # segs)"

definition parse_una :: "data_model \<Rightarrow> kcp \<Rightarrow> u32 \<Rightarrow> kcp" where
  "parse_una dm k u = k\<lparr>snd_buf := una_loop dm u (snd_buf k)\<rparr>"

text \<open>The source is modelled without \<open>IKCP_FASTACK_CONSERVE\<close>, which kcp.cpp does not define.\<close>

fun fast_ack_loop :: "data_model \<Rightarrow> u32 \<Rightarrow> segment list \<Rightarrow> segment list" where
  "fast_ack_loop dm s [] = []"
| "fast_ack_loop dm s (seg # segs) =
     (if itimediff dm s (sn seg) < 0 then seg # segs
      else if s \<noteq> sn seg then seg\<lparr>fastack := fastack seg + 1\<rparr> # fast_ack_loop dm s segs
      else seg # fast_ack_loop dm s segs)"

definition parse_fast_ack :: "data_model \<Rightarrow> kcp \<Rightarrow> u32 \<Rightarrow> u32 \<Rightarrow> kcp" where
  "parse_fast_ack dm k s t =
     (if itimediff dm s (snd_una k) < 0 \<or> itimediff dm s (snd_nxt k) \<ge> 0 then k
      else k\<lparr>snd_buf := fast_ack_loop dm s (snd_buf k)\<rparr>)"

text \<open>
  The reverse scan of \<open>parse_data\<close>, on \<open>rcv_buf\<close> reversed: it stops at a segment with
  the same \<open>sn\<close> (a repeat, nothing is inserted) or at the first segment that the new
  one follows, and the new segment is inserted at the \<open>base()\<close> of the reverse iterator,
  that is right behind the segment the scan stopped at, or at the front when the scan
  reached \<open>rend()\<close>.
\<close>

fun insert_scan :: "data_model \<Rightarrow> segment \<Rightarrow> segment list \<Rightarrow> segment list" where
  "insert_scan dm newseg [] = [newseg]"
| "insert_scan dm newseg (seg # segs) =
     (if sn seg = sn newseg then seg # segs
      else if itimediff dm (sn newseg) (sn seg) > 0 then newseg # seg # segs
      else seg # insert_scan dm newseg segs)"

definition parse_data :: "data_model \<Rightarrow> kcp \<Rightarrow> segment \<Rightarrow> kcp" where
  "parse_data dm k newseg =
     (if itimediff dm (sn newseg) (rcv_nxt k + rcv_wnd k) \<ge> 0
         \<or> itimediff dm (sn newseg) (rcv_nxt k) < 0 then k
      else move_available (k\<lparr>rcv_buf := rev (insert_scan dm newseg (rev (rcv_buf k)))\<rparr>))"

text \<open>
  The body of the loop of \<open>input\<close> for one decoded segment, after the checks of \<open>conv\<close>,
  \<open>len\<close> and \<open>cmd\<close>. The locals \<open>flag\<close>, \<open>maxack\<close> and \<open>latest_ts\<close> are passed along;
  \<open>payload\<close> is the buffer behind the header.
\<close>

type_synonym ack_locals = "bool \<times> u32 \<times> u32"

definition input_segment ::
  "data_model \<Rightarrow> kcp \<Rightarrow> u32 \<Rightarrow> u8 \<Rightarrow> u8 \<Rightarrow> u16 \<Rightarrow> u32 \<Rightarrow> u32 \<Rightarrow> u32 \<Rightarrow> u32 \<Rightarrow> u8 list
   \<Rightarrow> ack_locals \<Rightarrow> kcp \<times> ack_locals" where
  "input_segment dm k cnv c f w t s u len payload loc =
     (let k1 = shrink_buffer (parse_una dm (k\<lparr>rmt_wnd := ucast w\<rparr>) u) in
      if ucast c = IKCP_CMD_ACK then
        let k2 = (if itimediff dm (current k1) t \<ge> 0
                  then update_ack dm k1 (word_of_int (itimediff dm (current k1) t)) else k1);
            k3 = shrink_buffer (parse_ack dm k2 s)
        in (case loc of (flag, maxack, latest_ts) \<Rightarrow>
              if \<not> flag then (k3, (True, s, t))
              else if itimediff dm s maxack > 0 then (k3, (True, s, t))
              else (k3, (flag, maxack, latest_ts)))
      else if ucast c = IKCP_CMD_PUSH then
        (if itimediff dm s (rcv_nxt k1 + rcv_wnd k1) < 0 then
           let k2 = k1\<lparr>acklist := acklist k1 @ [(s, t)]\<rparr> in
           if itimediff dm s (rcv_nxt k2) \<ge> 0 then
             let seg0 = new_segment (unat len);
                 seg = seg0\<lparr>conv := cnv, cmd := ucast c, frg := ucast f, wnd := ucast w,
                            ts := t, sn := s, una := u,
                            data := (if len > 0 then copy_n payload (unat len) (data seg0)
                                     else data seg0)\<rparr>
             in (parse_data dm k2 seg, loc)
           else (k2, loc)
         else (k1, loc))
      else if ucast c = IKCP_CMD_WASK then (k1\<lparr>probe := probe k1 OR IKCP_ASK_TELL\<rparr>, loc)
      else (k1, loc))"

text \<open>
  One turn of the loop of \<open>input\<close>, behind the test \<open>size < 24\<close>; \<open>sz\<close> is the
  \<open>long\<close> variable \<open>size\<close>. An early \<open>return\<close> is \<open>Inl\<close> with the code and the
  control block as the segments before have left it; otherwise the result is the state of
  the loop for the next turn.
\<close>

definition input_step ::
  "data_model \<Rightarrow> kcp \<Rightarrow> u8 list \<Rightarrow> int \<Rightarrow> ack_locals
   \<Rightarrow> (i32 \<times> kcp) + (kcp \<times> u8 list \<times> int \<times> ack_locals)" where
  "input_step dm k p sz loc =
     (let cnv = fst (decode32u p); p1 = snd (decode32u p) in
      if cnv \<noteq> kcp_conv k then Inl (- 1, k)
      else
        let c = fst (decode8u p1); p2 = snd (decode8u p1);
            f = fst (decode8u p2); p3 = snd (decode8u p2);
            w = fst (decode16u p3); p4 = snd (decode16u p3);
            t = fst (decode32u p4); p5 = snd (decode32u p4);
            s = fst (decode32u p5); p6 = snd (decode32u p5);
            u = fst (decode32u p6); p7 = snd (decode32u p6);
            len = fst (decode32u p7); p8 = snd (decode32u p7);
            sz1 = sz - 24
        in if sz1 < long_of_u32 dm len \<or> sint len < 0
           then Inl (- 2, k)
           else if ucast c \<noteq> IKCP_CMD_PUSH \<and> ucast c \<noteq> IKCP_CMD_ACK \<and>
                   ucast c \<noteq> IKCP_CMD_WASK \<and> ucast c \<noteq> IKCP_CMD_WINS
           then Inl (- 3, k)
           else (case input_segment dm k cnv c f w t s u len p8 loc of
                   (k', loc') \<Rightarrow> Inr (k', drop (unat len) p8, sz1 - uint len, loc')))"

lemma input_step_size:
  "input_step dm k p sz loc = Inr (k', p', sz', loc') \<Longrightarrow> sz' \<le> sz - 24"
  by (auto simp: input_step_def Let_def split: if_splits prod.splits)

function input_loop ::
  "data_model \<Rightarrow> kcp \<Rightarrow> u8 list \<Rightarrow> int \<Rightarrow> ack_locals \<Rightarrow> (i32 \<times> kcp) + (kcp \<times> ack_locals)" where
  "input_loop dm k p sz loc =
     (if sz < 24 then Inr (k, loc)
      else (case input_step dm k p sz loc of
              Inl r \<Rightarrow> Inl r
            | Inr (k', p', sz', loc') \<Rightarrow> input_loop dm k' p' sz' loc'))"
  by pat_completeness auto
termination
  by (relation "measure (\<lambda>(dm, k, p, sz, loc). nat sz)") (auto dest: input_step_size)

declare input_loop.simps [simp del]

text \<open>The congestion window update at the end of \<open>input\<close>, once \<open>snd_una\<close> has advanced.\<close>

definition grow_cwnd :: "kcp \<Rightarrow> kcp" where
  "grow_cwnd k =
     (if cwnd k < rmt_wnd k then
        let m = mss k;
            k1 = (if cwnd k < ssthresh k then k\<lparr>cwnd := cwnd k + 1, incr := incr k + m\<rparr>
                  else
                    let i0 = (if incr k < m then m else incr k);
                        i1 = i0 + ((m * m) div i0 + (m div 16))
                    in if (cwnd k + 1) * m \<le> i1
                       then k\<lparr>incr := i1, cwnd := (i1 + m - 1) div (if m > 0 then m else 1)\<rparr>
                       else k\<lparr>incr := i1\<rparr>)
        in if cwnd k1 > rmt_wnd k1 then k1\<lparr>cwnd := rmt_wnd k1, incr := rmt_wnd k1 * m\<rparr> else k1
      else k)"

text \<open>
  \<open>input(const char *data, long size)\<close>: \<open>data\<close> is \<open>None\<close> for a null pointer and the
  bytes at the pointer otherwise; \<open>sz\<close> is the argument \<open>size\<close>, and \<open>(int)size\<close>
  keeps its low 32 bits.
\<close>

definition input :: "data_model \<Rightarrow> kcp \<Rightarrow> u8 list option \<Rightarrow> int \<Rightarrow> i32 \<times> kcp" where
  "input dm k dat sz =
     (case dat of
        None \<Rightarrow> (- 1, k)
      | Some p \<Rightarrow>
          if sint (word_of_int sz :: i32) < 24 then (- 1, k)
          else
            (case input_loop dm k p sz (False, 0, 0) of
               Inl r \<Rightarrow> r
             | Inr (k1, (flag, maxack, latest_ts)) \<Rightarrow>
                 let k2 = (if flag then parse_fast_ack dm k1 maxack latest_ts else k1);
                     k3 = (if itimediff dm (snd_una k2) (snd_una k) > 0 then grow_cwnd k2 else k2)
                 in (0, k3)))"

section \<open>Egress\<close>

definition window_unused :: "kcp \<Rightarrow> i32" where
  "window_unused k =
     (if length (rcv_queue k) < unat (rcv_wnd k)
      then rcv_wnd k - word_of_nat (length (rcv_queue k)) else 0)"

text \<open>
  Staging. The staging buffer is kept as the list of the segments encoded into it since
  it was last emitted: its bytes are the concatenation of their encodings (\<open>wire\<close>), and
  \<open>ptr - buffer\<close> is the number of these bytes. A datagram handed to the output callback
  is the list of segments it is made of; \<open>flush\<close> returns the datagrams in the order of
  the calls. The capacity of the buffer is not modelled.
\<close>

definition wire :: "segment \<Rightarrow> u8 list" where
  "wire seg = encode_seg seg @ data seg"

definition datagram_bytes :: "segment list \<Rightarrow> u8 list" where
  "datagram_bytes buf = concat (map wire buf)"

definition staged_size :: "segment list \<Rightarrow> int" where
  "staged_size buf = int (length (datagram_bytes buf))"

type_synonym staging = "segment list list \<times> segment list"

text \<open>\<open>kcp_output\<close> calls the output callback unless \<open>size == 0\<close>.\<close>

definition kcp_output :: "segment list list \<Rightarrow> segment list \<Rightarrow> segment list list" where
  "kcp_output out buf = (if staged_size buf = 0 then out else out @ [buf])"

text \<open>
  Encoding one segment into the staging buffer: when the bytes staged and the bytes needed
  (the header and the payload) exceed \<open>mtu\<close>, the buffer is emitted and restarted first.
\<close>

definition stage :: "kcp \<Rightarrow> staging \<Rightarrow> segment \<Rightarrow> staging" where
  "stage k st seg =
     (case st of (out, buf) \<Rightarrow>
        if staged_size buf + (24 + int (length (data seg))) > sint (mtu k)
        then (kcp_output out buf, [seg]) else (out, buf @ [seg]))"

text \<open>The loop over \<open>acklist\<close>; the local \<open>seg\<close> keeps the last \<open>sn\<close> and \<open>ts\<close> written to it.\<close>

fun flush_acks :: "kcp \<Rightarrow> segment \<Rightarrow> (u32 \<times> u32) list \<Rightarrow> staging \<Rightarrow> segment \<times> staging" where
  "flush_acks k seg [] st = (seg, st)"
| "flush_acks k seg ((s, t) # acks) st =
     (let seg' = seg\<lparr>sn := s, ts := t\<rparr> in flush_acks k seg' acks (stage k st seg'))"

definition probe_window :: "data_model \<Rightarrow> kcp \<Rightarrow> kcp" where
  "probe_window dm k =
     (if rmt_wnd k = 0 then
        (if probe_wait k = 0
         then k\<lparr>probe_wait := IKCP_PROBE_INIT, ts_probe := current k + IKCP_PROBE_INIT\<rparr>
         else if itimediff dm (current k) (ts_probe k) \<ge> 0 then
           let w0 = (if probe_wait k < IKCP_PROBE_INIT then IKCP_PROBE_INIT else probe_wait k);
               w1 = w0 + w0 div 2;
               w2 = (if w1 > IKCP_PROBE_LIMIT then IKCP_PROBE_LIMIT else w1)
           in k\<lparr>probe_wait := w2, ts_probe := current k + w2,
                probe := probe k OR IKCP_ASK_SEND\<rparr>
         else k)
      else k\<lparr>ts_probe := 0, probe_wait := 0\<rparr>)"

text \<open>
  The loop that moves segments from \<open>snd_queue\<close> to \<open>snd_buf\<close>, on the queue, the buffer
  and \<open>snd_nxt\<close>; \<open>cw\<close> is the local \<open>cwnd\<close> and \<open>w\<close> is \<open>seg.wnd\<close>.
\<close>

fun promote_loop ::
  "data_model \<Rightarrow> kcp \<Rightarrow> u32 \<Rightarrow> u32 \<Rightarrow> segment list \<Rightarrow> segment list \<Rightarrow> u32
   \<Rightarrow> segment list \<times> segment list \<times> u32" where
  "promote_loop dm k cw w [] buf nxt = ([], buf, nxt)"
| "promote_loop dm k cw w (newseg # q) buf nxt =
     (if itimediff dm nxt (snd_una k + cw) < 0
      then promote_loop dm k cw w q
             (buf @ [newseg\<lparr>conv := kcp_conv k, cmd := IKCP_CMD_PUSH, wnd := w,
                            ts := current k, sn := nxt, una := rcv_nxt k,
                            resendts := current k, rto := rx_rto k, fastack := 0,
                            xmit := 0\<rparr>])
             (nxt + 1)
      else (newseg # q, buf, nxt))"

text \<open>
  The send decision for one segment of \<open>snd_buf\<close>. The accumulator holds the control
  block (for \<open>this->xmit\<close> and \<open>this->state\<close>), the staging, \<open>change\<close> and \<open>lost\<close>.
\<close>

type_synonym flush_acc = "kcp \<times> staging \<times> nat \<times> bool"

definition flush_segment ::
  "data_model \<Rightarrow> u32 \<Rightarrow> u32 \<Rightarrow> u32 \<Rightarrow> segment \<Rightarrow> flush_acc \<Rightarrow> segment \<times> flush_acc" where
  "flush_segment dm w resent rtomin seg acc =
     (case acc of (k, st, change, lost) \<Rightarrow>
        let cur = current k;
            r =
              (if xmit seg = 0 then
                 (True, seg\<lparr>xmit := xmit seg + 1, rto := rx_rto k,
                            resendts := cur + rx_rto k + rtomin\<rparr>, k, change, lost)
               else if itimediff dm cur (resendts seg) \<ge> 0 then
                 let rto' =
                       (if nodelay k = 0 then rto seg + max (rto seg) (rx_rto k)
                        else
                          let step = (if nodelay k < 2 then rto seg else rx_rto k)
                          in rto seg + word_of_int (sint step sdiv 2))
                 in (True, seg\<lparr>xmit := xmit seg + 1, rto := rto', resendts := cur + rto'\<rparr>,
                     k\<lparr>kcp_xmit := kcp_xmit k + 1\<rparr>, change, True)
               else if fastack seg \<ge> resent then
                 (if sint (xmit seg) \<le> sint (fastlimit k) \<or> sint (fastlimit k) \<le> 0
                  then (True, seg\<lparr>xmit := xmit seg + 1, fastack := 0,
                                  resendts := cur + rto seg\<rparr>, k, change + 1, lost)
                  else (False, seg, k, change, lost))
               else (False, seg, k, change, lost))
        in (case r of (needsend, seg1, k1, change1, lost1) \<Rightarrow>
              if needsend then
                let seg2 = seg1\<lparr>ts := cur, wnd := w, una := rcv_nxt k1\<rparr>;
                    st1 = stage k1 st seg2;
                    k2 = (if xmit seg2 \<ge> dead_link k1 then k1\<lparr>state := - 1\<rparr> else k1)
                in (seg2, (k2, st1, change1, lost1))
              else (seg1, (k1, st, change1, lost1))))"

fun flush_data ::
  "data_model \<Rightarrow> u32 \<Rightarrow> u32 \<Rightarrow> u32 \<Rightarrow> segment list \<Rightarrow> flush_acc \<Rightarrow> segment list \<times> flush_acc" where
  "flush_data dm w resent rtomin [] acc = ([], acc)"
| "flush_data dm w resent rtomin (seg # segs) acc =
     (case flush_segment dm w resent rtomin seg acc of
        (seg', acc') \<Rightarrow>
          (case flush_data dm w resent rtomin segs acc' of
             (segs', acc'') \<Rightarrow> (seg' # segs', acc'')))"

text \<open>The congestion response at the end of \<open>flush\<close>; \<open>cw\<close> is the local \<open>cwnd\<close>.\<close>

definition flush_cwnd :: "kcp \<Rightarrow> u32 \<Rightarrow> u32 \<Rightarrow> nat \<Rightarrow> bool \<Rightarrow> kcp" where
  "flush_cwnd k cw resent change lost =
     (let k1 =
        (if change \<noteq> 0 then
           let inflight = snd_nxt k - snd_una k;
               th = inflight div 2;
               th' = (if th < IKCP_THRESH_MIN then IKCP_THRESH_MIN else th)
           in k\<lparr>ssthresh := th', cwnd := th' + resent, incr := (th' + resent) * mss k\<rparr>
         else k);
          k2 =
        (if lost then
           let th = cw div 2;
               th' = (if th < IKCP_THRESH_MIN then IKCP_THRESH_MIN else th)
           in k1\<lparr>ssthresh := th', cwnd := 1, incr := mss k1\<rparr>
         else k1)
      in if cwnd k2 < 1 then k2\<lparr>cwnd := 1, incr := mss k2\<rparr> else k2)"

text \<open>\<open>flush()\<close>: the control block afterwards and the datagrams handed to the callback.\<close>

definition flush :: "data_model \<Rightarrow> kcp \<Rightarrow> kcp \<times> segment list list" where
  "flush dm k =
     (if updated k = 0 then (k, [])
      else
        let seg0 = (new_segment 0)\<lparr>conv := kcp_conv k, cmd := IKCP_CMD_ACK, frg := 0,
                                    wnd := window_unused k, una := rcv_nxt k, sn := 0, ts := 0\<rparr>
        in (case flush_acks k seg0 (acklist k) ([], []) of
              (seg1, st1) \<Rightarrow>
                let k1 = probe_window dm (k\<lparr>acklist := []\<rparr>);
                    seg2 = (if probe k1 AND IKCP_ASK_SEND \<noteq> 0
                            then seg1\<lparr>cmd := IKCP_CMD_WASK\<rparr> else seg1);
                    st2 = (if probe k1 AND IKCP_ASK_SEND \<noteq> 0 then stage k1 st1 seg2 else st1);
                    seg3 = (if probe k1 AND IKCP_ASK_TELL \<noteq> 0
                            then seg2\<lparr>cmd := IKCP_CMD_WINS\<rparr> else seg2);
                    st3 = (if probe k1 AND IKCP_ASK_TELL \<noteq> 0 then stage k1 st2 seg3 else st2);
                    k2 = k1\<lparr>probe := 0\<rparr>;
                    cw0 = min (snd_wnd k2) (rmt_wnd k2);
                    cw = (if nocwnd k2 = 0 then min (cwnd k2) cw0 else cw0)
                in (case promote_loop dm k2 cw (wnd seg3) (snd_queue k2) (snd_buf k2) (snd_nxt k2) of
                      (q, buf, nxt) \<Rightarrow>
                        let k3 = k2\<lparr>snd_queue := q, snd_buf := buf, snd_nxt := nxt\<rparr>;
                            resent = (if sint (fastresend k3) > 0 then fastresend k3
                                      else 0xffffffff);
                            rtomin = (if nodelay k3 = 0 then signed_drop_bit 3 (rx_rto k3) else 0)
                        in (case flush_data dm (wnd seg3) resent rtomin (snd_buf k3)
                                   (k3, st3, 0, False) of
                              (segs, (k4, (out, staged), change, lost)) \<Rightarrow>
                                let k5 = k4\<lparr>snd_buf := segs\<rparr>;
                                    out' = (if staged_size staged > 0 then kcp_output out staged
                                            else out)
                                in (flush_cwnd k5 cw resent change lost, out')))))"

section \<open>Timer driver\<close>

definition update :: "data_model \<Rightarrow> kcp \<Rightarrow> u32 \<Rightarrow> kcp \<times> segment list list" where
  "update dm k c =
     (let k1 = k\<lparr>current := c\<rparr>;
          k2 = (if updated k1 = 0 then k1\<lparr>updated := 1, ts_flush := current k1\<rparr> else k1);
          slap0 = sint (word_of_int (itimediff dm (current k2) (ts_flush k2)) :: i32);
          far = (slap0 \<ge> 10000 \<or> slap0 < - 10000);
          k3 = (if far then k2\<lparr>ts_flush := current k2\<rparr> else k2);
          slap = (if far then 0 else slap0)
      in if slap \<ge> 0 then
           let k4 = k3\<lparr>ts_flush := ts_flush k3 + interval k3\<rparr>;
               k5 = (if itimediff dm (current k4) (ts_flush k4) \<ge> 0
                     then k4\<lparr>ts_flush := current k4 + interval k4\<rparr> else k4)
           in flush dm k5
         else (k3, []))"



section \<open>Configuration\<close>

definition set_mtu :: "kcp \<Rightarrow> i32 \<Rightarrow> i32 \<times> kcp" where
  "set_mtu k m =
     (if sint m < 50 \<or> sint m < sint IKCP_OVERHEAD then (- 1, k)
      else if mtu k = m then (0, k)
      else (0, k\<lparr>mtu := m, mss := m - IKCP_OVERHEAD\<rparr>))"

definition get_mtu :: "kcp \<Rightarrow> i32" where
  "get_mtu k = mtu k"

definition get_interval :: "kcp \<Rightarrow> i32 \<Rightarrow> i32 \<times> kcp" where
  "get_interval k i =
     (let i' = (if sint i > 5000 then 5000 else if sint i < 10 then 10 else i)
      in (0, k\<lparr>interval := i'\<rparr>))"

definition no_delay :: "kcp \<Rightarrow> i32 \<Rightarrow> i32 \<Rightarrow> i32 \<Rightarrow> i32 \<Rightarrow> i32 \<times> kcp" where
  "no_delay k nd i resend nc =
     (let k1 = (if sint nd \<ge> 0
                then k\<lparr>nodelay := nd,
                       rx_minrto := (if nd \<noteq> 0 then IKCP_RTO_NDL else IKCP_RTO_MIN)\<rparr>
                else k);
          k2 = (if sint i \<ge> 0
                then k1\<lparr>interval := (if sint i > 5000 then 5000
                                       else if sint i < 10 then 10 else i)\<rparr>
                else k1);
          k3 = (if sint resend \<ge> 0 then k2\<lparr>fastresend := resend\<rparr> else k2);
          k4 = (if sint nc \<ge> 0 then k3\<lparr>nocwnd := nc\<rparr> else k3)
      in (0, k4))"

definition set_window_size :: "kcp \<Rightarrow> i32 \<Rightarrow> i32 \<Rightarrow> kcp" where
  "set_window_size k sndwnd rcvwnd =
     (let k1 = (if sint sndwnd > 0 then k\<lparr>snd_wnd := sndwnd\<rparr> else k)
      in if sint rcvwnd > 0 then k1\<lparr>rcv_wnd := max rcvwnd IKCP_WND_RCV\<rparr> else k1)"

definition get_window_size :: "kcp \<Rightarrow> i32 \<times> i32" where
  "get_window_size k = (snd_wnd k, rcv_wnd k)"

definition waiting_for_send :: "kcp \<Rightarrow> i32" where
  "waiting_for_send k = word_of_nat (length (snd_buf k) + length (snd_queue k))"

definition get_conv :: "kcp \<Rightarrow> u32" where
  "get_conv k = kcp_conv k"

definition get_conv_of :: "u8 list \<Rightarrow> u32" where
  "get_conv_of p = fst (decode32u p)"

definition set_stream_mode :: "kcp \<Rightarrow> bool \<Rightarrow> kcp" where
  "set_stream_mode k enable = k\<lparr>stream := (if enable then 1 else 0)\<rparr>"

text \<open>
  \<open>rx_min_rto()\<close> and \<open>log_mask()\<close> return references to the members: the caller may
  store any value through them.
\<close>

definition rx_min_rto :: "kcp \<Rightarrow> i32 \<Rightarrow> kcp" where
  "rx_min_rto k v = k\<lparr>rx_minrto := v\<rparr>"

definition log_mask :: "kcp \<Rightarrow> i32 \<Rightarrow> kcp" where
  "log_mask k v = k\<lparr>logmask := v\<rparr>"

section \<open>The public operations as steps\<close>

datatype operation =
    Send "u8 list option" i32
  | Receive "u8 list option" i32
  | ReceiveVec "u8 list"
  | Input "u8 list option" int
  | Update u32
  | Flush
  | Check u32
  | SetMtu i32
  | SetInterval i32
  | NoDelay i32 i32 i32 i32
  | SetWindowSize i32 i32
  | SetStreamMode bool
  | SetRxMinRto i32
  | SetLogMask i32

text \<open>
  The control block after an operation has returned; \<open>None\<close> when it does not return
  (the assertion of \<open>send\<close>).
\<close>

fun step :: "data_model \<Rightarrow> kcp \<Rightarrow> operation \<Rightarrow> kcp option" where
  "step dm k (Send buffer len) = map_option snd (send k buffer len)"
| "step dm k (Receive buffer len) = Some (snd (snd (receive k buffer len)))"
| "step dm k (ReceiveVec buffer) = Some (snd (snd (receive_vec k buffer)))"
| "step dm k (Input dat sz) = Some (snd (input dm k dat sz))"
| "step dm k (Update c) = Some (fst (update dm k c))"
| "step dm k Flush = Some (fst (flush dm k))"
| "step dm k (Check c) = Some k"
| "step dm k (SetMtu m) = Some (snd (set_mtu k m))"
| "step dm k (SetInterval i) = Some (snd (get_interval k i))"
| "step dm k (NoDelay nd i resend nc) = Some (snd (no_delay k nd i resend nc))"
| "step dm k (SetWindowSize sndwnd rcvwnd) = Some (set_window_size k sndwnd rcvwnd)"
| "step dm k (SetStreamMode enable) = Some (set_stream_mode k enable)"
| "step dm k (SetRxMinRto v) = Some (rx_min_rto k v)"
| "step dm k (SetLogMask v) = Some (log_mask k v)"

text \<open>
  \<open>run\<close> performs a sequence of operations from a state. \<open>reachable_by dm ok\<close> holds of
  the states that the operations admitted by \<open>ok\<close> lead to from a newly constructed
  control block; \<open>reachable\<close> admits every operation.
\<close>

fun run :: "data_model \<Rightarrow> kcp \<Rightarrow> operation list \<Rightarrow> kcp option" where
  "run dm k [] = Some k"
| "run dm k (x # xs) = (case step dm k x of None \<Rightarrow> None | Some k' \<Rightarrow> run dm k' xs)"

inductive reachable_by :: "data_model \<Rightarrow> (kcp \<Rightarrow> operation \<Rightarrow> bool) \<Rightarrow> kcp \<Rightarrow> bool"
  for dm :: data_model and ok :: "kcp \<Rightarrow> operation \<Rightarrow> bool" where
  init: "reachable_by dm ok (kcp_new c)"
| step: "reachable_by dm ok k \<Longrightarrow> ok k x \<Longrightarrow> step dm k x = Some k' \<Longrightarrow> reachable_by dm ok k'"

definition reachable :: "data_model \<Rightarrow> kcp \<Rightarrow> bool" where
  "reachable dm k = reachable_by dm (\<lambda>k x. True) k"

section \<open>Properties\<close>

lemmas IKCP_defs =
  IKCP_RTO_NDL_def IKCP_RTO_MIN_def IKCP_RTO_DEF_def IKCP_RTO_MAX_def
  IKCP_CMD_PUSH_def IKCP_CMD_ACK_def IKCP_CMD_WASK_def IKCP_CMD_WINS_def
  IKCP_ASK_SEND_def IKCP_ASK_TELL_def IKCP_WND_SND_def IKCP_WND_RCV_def
  IKCP_MTU_DEF_def IKCP_ACK_FAST_def IKCP_INTERVAL_def IKCP_OVERHEAD_def
  IKCP_DEADLINK_def IKCP_THRESH_INIT_def IKCP_THRESH_MIN_def
  IKCP_PROBE_INIT_def IKCP_PROBE_LIMIT_def IKCP_FASTACK_LIMIT_def

subsection \<open>Receiving from an empty queue\<close>

text \<open>
  Claim C10. When \<open>rcv_queue\<close> is empty, \<open>PeekSize\<close> returns -1; the
  \<open>std::vector\<close> overload of \<open>receive\<close> consults \<open>PeekSize\<close> first and returns -2,
  while the \<open>(char*, int)\<close> overload tests for the empty queue first and returns -1: the
  two overloads return different error codes for the same state.
\<close>

theorem receive_empty_queue_codes:
  assumes "rcv_queue k = []"
  shows "PeekSize k = - 1 \<and> fst (receive_vec k v) = - 2 \<and> fst (receive k buffer len) = - 1
         \<and> fst (receive_vec k v) \<noteq> fst (receive k buffer len)"
proof -
  have p: "PeekSize k = - 1" using assms by (simp add: PeekSize_def)
  have v: "receive_vec k v = (- 2, v, k)" by (simp add: receive_vec_def p)
  have r: "receive k buffer len = (- 1, buffer, k)" using assms by (simp add: receive_def Let_def)
  show ?thesis by (simp add: p v r)
qed

theorem receive_empty_queue_codes_witness:
  "PeekSize (kcp_new 7) = - 1 \<and> fst (receive_vec (kcp_new 7) []) = - 2
   \<and> fst (receive (kcp_new 7) None 0) = - 1"
  using receive_empty_queue_codes [of "kcp_new 7" "[]" None 0] by (simp add: kcp_new_def)

subsection \<open>Machine integers\<close>

lemma itimediff_LONG32 [simp]: "itimediff LONG32 a b = sint (a - b)"
  by (simp add: itimediff_def long_of_u32_def)

lemma itimediff_LONG64 [simp]: "itimediff LONG64 a b = uint (a - b)"
  by (simp add: itimediff_def long_of_u32_def)

lemma itimediff_to_i32 [simp]: "(word_of_int (itimediff dm a b) :: i32) = a - b"
  by (cases dm) simp_all






lemma sint_pos_uint: "0 \<le> sint (x :: i32) \<Longrightarrow> uint x = sint x"
proof -
  assume a: "0 \<le> sint x"
  have "sint x < 2 ^ 32" using sint_lt [of x] by simp
  then have "take_bit 32 (sint x) = sint x" using a by (simp add: take_bit_int_eq_self)
  then show ?thesis using uint_sint [of x] by simp
qed

lemma sint_of_int_i32:
  "- 2147483648 \<le> v \<Longrightarrow> v < 2147483648 \<Longrightarrow> sint (word_of_int v :: i32) = v"
  by (simp add: sint_sbintrunc' signed_take_bit_int_eq_self)


subsection \<open>The next deadline\<close>










lemma sint_sub_i32:
  "- 2147483648 \<le> sint a - sint b \<Longrightarrow> sint a - sint b < 2147483648 \<Longrightarrow>
   sint (a - b :: i32) = sint a - sint b"
  by (simp add: sint_word_diff signed_take_bit_int_eq_self)

lemma sint_add_i32:
  "- 2147483648 \<le> sint a + sint b \<Longrightarrow> sint a + sint b < 2147483648 \<Longrightarrow>
   sint (a + b :: i32) = sint a + sint b"
  by (simp add: sint_word_add signed_take_bit_int_eq_self)

lemma sint_of_nat_i32: "n < 2147483648 \<Longrightarrow> sint (word_of_nat n :: i32) = int n"
  using sint_of_int_i32 [of "int n"] by simp

lemma unat_sint_i32: "0 \<le> sint (x :: i32) \<Longrightarrow> unat x = nat (sint x)"
  using sint_pos_uint [of x] by (simp add: unat_eq_nat_uint)

lemma sint_bounds_i32: "- 2147483648 \<le> sint (x :: i32)" "sint (x :: i32) < 2147483648"
  using sint_ge [of x] sint_lt [of x] by simp_all

subsection \<open>Fragmentation on send\<close>

text \<open>
  The description of \<open>send\<close> that the code is compared with: the number of fragments a
  length needs, \<open>ceil(len / mss)\<close> and 1 for a length up to \<open>mss\<close>; the room in the
  tail segment of \<open>snd_queue\<close> in stream mode; the number of bytes the tail takes; the
  length left for fresh segments; the bytes read from the caller's buffer (zero bytes for
  a null pointer); and the queue with its tail extended.
\<close>

definition fragments_needed :: "u32 \<Rightarrow> i32 \<Rightarrow> int" where
  "fragments_needed m len =
     (if sint len \<le> sint m then 1 else (sint len + sint m - 1) div sint m)"

definition tail_room :: "kcp \<Rightarrow> nat" where
  "tail_room k =
     (if stream k \<noteq> 0 \<and> snd_queue k \<noteq> [] \<and> length (data (last (snd_queue k))) < unat (mss k)
      then unat (mss k) - length (data (last (snd_queue k))) else 0)"

definition extend_by :: "kcp \<Rightarrow> i32 \<Rightarrow> nat" where
  "extend_by k len = min (nat (sint len)) (tail_room k)"

definition left_after_tail :: "kcp \<Rightarrow> i32 \<Rightarrow> i32" where
  "left_after_tail k len = len - word_of_nat (extend_by k len)"

definition bytes_from :: "u8 list option \<Rightarrow> nat \<Rightarrow> u8 list" where
  "bytes_from buffer n =
     (case buffer of None \<Rightarrow> replicate n 0 | Some b \<Rightarrow> take n b @ replicate (n - length b) 0)"

definition tail_extended :: "kcp \<Rightarrow> u8 list option \<Rightarrow> i32 \<Rightarrow> segment list" where
  "tail_extended k buffer len =
     (if stream k \<noteq> 0 \<and> snd_queue k \<noteq> [] \<and> length (data (last (snd_queue k))) < unat (mss k)
      then butlast (snd_queue k) @
           [(last (snd_queue k))\<lparr>data := data (last (snd_queue k)) @ bytes_from buffer (extend_by k len),
                                   frg := 0\<rparr>]
      else snd_queue k)"

lemma copy_n_replicate: "copy_n b n (replicate n 0) = bytes_from (Some b) n"
  by (simp add: copy_n_def bytes_from_def min_def)

lemma append_to_tail_eq:
  assumes m: "0 < sint (mss k)" and l: "0 \<le> sint len" and s: "stream k \<noteq> 0"
  shows "append_to_tail k buffer len =
         (tail_extended k buffer len, map_option (drop (extend_by k len)) buffer, left_after_tail k len)"
proof (cases "snd_queue k \<noteq> [] \<and> length (data (last (snd_queue k))) < unat (mss k)")
  case False
  then have "tail_room k = 0" by (auto simp: tail_room_def)
  then have e: "extend_by k len = 0" by (simp add: extend_by_def)
  have "map_option (drop 0) buffer = buffer" by (cases buffer) simp_all
  with False e show ?thesis
    by (auto simp: append_to_tail_def tail_extended_def left_after_tail_def Let_def)
next
  case True
  define seg where "seg = last (snd_queue k)"
  define n where "n = length (data seg)"
  define cap where "cap = mss k - word_of_nat n"
  define e where "e = (if sint len < sint cap then len else cap)"
  define d1 where "d1 = resize (data seg) (nat (int n + sint e))"
  have atd: "append_to_tail k buffer len =
     (butlast (snd_queue k) @
        [seg\<lparr>data := (case buffer of
                          Some b \<Rightarrow> take n d1 @ copy_n b (nat (sint e)) (drop n d1)
                        | None \<Rightarrow> d1), frg := 0\<rparr>],
      map_option (drop (nat (sint e))) buffer, len - e)"
    unfolding append_to_tail_def Let_def d1_def e_def cap_def n_def seg_def using True by simp
  have um: "unat (mss k) = nat (sint (mss k))" using m by (simp add: unat_sint_i32)
  have n_lt: "int n < sint (mss k)" using True um m unfolding n_def seg_def by linarith
  have n_small: "n < 2147483648" using n_lt sint_bounds_i32(2) [of "mss k"] by linarith
  have sn: "sint (word_of_nat n :: i32) = int n" by (rule sint_of_nat_i32 [OF n_small])
  have scap: "sint cap = sint (mss k) - int n"
    unfolding cap_def
    using sint_sub_i32 [of "mss k" "word_of_nat n"] sn n_lt sint_bounds_i32(2) [of "mss k"] by simp
  have room: "int (tail_room k) = sint cap"
    using True s um n_lt scap unfolding n_def seg_def by (simp add: tail_room_def)
  have se: "sint e = int (extend_by k len)"
    unfolding e_def using room l by (auto simp: extend_by_def min_def)
  have ne: "nat (sint e) = extend_by k len" using se by simp
  have we: "e = word_of_nat (extend_by k len)"
  proof -
    have "word_of_int (sint e) = e" by simp
    then show ?thesis using se by simp
  qed
  have d1': "d1 = data seg @ replicate (extend_by k len) 0"
    unfolding d1_def using se by (simp add: resize_def n_def nat_add_distrib)
  have res: "(case buffer of
                Some b \<Rightarrow> take n d1 @ copy_n b (extend_by k len) (drop n d1)
              | None \<Rightarrow> d1)
             = data seg @ bytes_from buffer (extend_by k len)"
    unfolding d1' by (cases buffer) (simp_all add: copy_n_replicate n_def, simp add: bytes_from_def)
  show ?thesis
    unfolding atd ne res using True s we
    by (simp add: tail_extended_def left_after_tail_def seg_def)
qed


lemma bytes_from_length [simp]: "length (bytes_from buffer n) = n"
  by (cases buffer) (auto simp: bytes_from_def)

lemma bytes_from_split:
  "n1 \<le> n \<Longrightarrow>
   bytes_from buffer n1 @ bytes_from (map_option (drop n1) buffer) (n - n1) = bytes_from buffer n"
proof (cases buffer)
  case None
  assume "n1 \<le> n"
  then show ?thesis using None by (simp add: bytes_from_def replicate_add [symmetric])
next
  case (Some b)
  assume le: "n1 \<le> n"
  show ?thesis
  proof (cases "n1 \<le> length b")
    case True
    have "take n1 b @ take (n - n1) (drop n1 b) = take n b"
      using le by (metis add_diff_cancel_left' le_Suc_ex take_add)
    then show ?thesis using Some True le by (simp add: bytes_from_def)
  next
    case False
    then show ?thesis using Some le by (simp add: bytes_from_def replicate_add [symmetric])
  qed
qed

lemma fragment_loop_length: "length (fragment_loop strm m c i buffer len) = c - i"
proof (induction strm m c i buffer len rule: fragment_loop.induct)
  case (1 strm m c i buffer len)
  show ?case
  proof (cases "i < c")
    case True
    then show ?thesis using 1 by (subst fragment_loop.simps) (simp add: Let_def)
  next
    case False
    then show ?thesis by (subst fragment_loop.simps) simp
  qed
qed

lemma fragment_loop_frg:
  "map frg (fragment_loop strm m c i buffer len) =
     (if strm = 0 then map (\<lambda>j. word_of_nat (c - j - 1)) [i..<c] else replicate (c - i) 0)"
proof (induction strm m c i buffer len rule: fragment_loop.induct)
  case (1 strm m c i buffer len)
  show ?case
  proof (cases "i < c")
    case True
    then have r: "replicate (c - i) (0 :: u32) = 0 # replicate (c - Suc i) 0"
      by (metis Suc_diff_Suc replicate_Suc)
    show ?thesis using True 1 r
      by (subst fragment_loop.simps) (auto simp: Let_def upt_conv_Cons split: option.splits)
  next
    case False
    then show ?thesis by (subst fragment_loop.simps) simp
  qed
qed

lemma fragment_loop_unfold:
  "i < c \<Longrightarrow>
   fragment_loop strm m c i buffer len =
     (let sz = (if sint len > sint m then m else len);
          seg0 = new_segment (nat (sint sz));
          seg1 = (case buffer of
                    Some b \<Rightarrow> if sint len > 0
                              then seg0\<lparr>data := copy_n b (nat (sint sz)) (data seg0)\<rparr> else seg0
                  | None \<Rightarrow> seg0);
          seg2 = seg1\<lparr>frg := (if strm = 0 then word_of_nat (c - i - 1) else 0)\<rparr>
      in seg2 # fragment_loop strm m c (Suc i) (map_option (drop (nat (sint sz))) buffer) (len - sz))"
  by (subst fragment_loop.simps) simp

lemma fragment_loop_done: "\<not> i < c \<Longrightarrow> fragment_loop strm m c i buffer len = []"
  by (subst fragment_loop.simps) simp

lemma fragment_loop_data:
  assumes "0 < sint m" and "0 \<le> sint len" and "sint len \<le> int (c - i) * sint m"
  shows "concat (map data (fragment_loop strm m c i buffer len)) = bytes_from buffer (nat (sint len))
       \<and> (\<forall>s\<in>set (fragment_loop strm m c i buffer len). sn s = 0 \<and> int (length (data s)) \<le> sint m)"
  using assms
proof (induction n \<equiv> "c - i" arbitrary: i buffer len)
  case 0
  then have "sint len = 0" by simp
  moreover have "\<not> i < c" using 0 by simp
  ultimately show ?case by (simp add: fragment_loop_done bytes_from_def split: option.splits)
next
  case (Suc n)
  have ic: "i < c" using Suc(2) by simp
  define sz where "sz = (if sint len > sint m then m else len)"
  have sz0: "0 \<le> sint sz" and szm: "sint sz \<le> sint m" and szl: "sint sz \<le> sint len"
    using Suc(3,4) by (auto simp: sz_def)
  have srest: "sint (len - sz) = sint len - sint sz"
    using sint_sub_i32 [of len sz] sz0 szl sint_bounds_i32 [of len] by simp
  have rest0: "0 \<le> sint (len - sz)" using srest szl by simp
  have restc: "sint (len - sz) \<le> int (c - Suc i) * sint m"
  proof (cases "sint len > sint m")
    case True
    have "int (c - i) = int (c - Suc i) + 1" using ic by simp
    then have e: "int (c - i) * sint m = int (c - Suc i) * sint m + sint m"
      by (simp only: distrib_right mult_1)
    have "sint (len - sz) = sint len - sint m" using True srest by (simp add: sz_def)
    then show ?thesis using Suc(5) e by linarith
  next
    case False
    then have "sint (len - sz) = 0" using srest by (simp add: sz_def)
    then show ?thesis using Suc(3) by simp
  qed
  define seg2 where "seg2 =
     (case buffer of
        Some b \<Rightarrow> if sint len > 0
                  then (new_segment (nat (sint sz)))\<lparr>data := copy_n b (nat (sint sz)) (data (new_segment (nat (sint sz))))\<rparr>
                  else new_segment (nat (sint sz))
      | None \<Rightarrow> new_segment (nat (sint sz)))\<lparr>frg := (if strm = 0 then word_of_nat (c - i - 1) else 0)\<rparr>"
  have unf: "fragment_loop strm m c i buffer len =
      seg2 # fragment_loop strm m c (Suc i) (map_option (drop (nat (sint sz))) buffer) (len - sz)"
    unfolding seg2_def sz_def using ic by (simp add: fragment_loop_unfold Let_def)
  have n: "n = c - Suc i" using Suc(2) by simp
  have IH: "concat (map data (fragment_loop strm m c (Suc i) (map_option (drop (nat (sint sz))) buffer) (len - sz)))
        = bytes_from (map_option (drop (nat (sint sz))) buffer) (nat (sint (len - sz)))
      \<and> (\<forall>s\<in>set (fragment_loop strm m c (Suc i) (map_option (drop (nat (sint sz))) buffer) (len - sz)).
            sn s = 0 \<and> int (length (data s)) \<le> sint m)"
    by (rule Suc(1) [OF n Suc(3) rest0 restc])
  have d2: "data seg2 = bytes_from buffer (nat (sint sz))"
  proof (cases buffer)
    case None
    then show ?thesis by (simp add: seg2_def new_segment_def bytes_from_def)
  next
    case (Some b)
    show ?thesis
    proof (cases "sint len > 0")
      case True
      then show ?thesis using Some
        by (simp add: seg2_def new_segment_def copy_n_replicate)
    next
      case False
      then have "nat (sint sz) = 0" using szl by simp
      then show ?thesis using Some False
        by (simp add: seg2_def new_segment_def bytes_from_def)
    qed
  qed
  have s2: "sn seg2 = 0"
    by (simp add: seg2_def new_segment_def split: option.splits)
  have nsplit: "nat (sint (len - sz)) = nat (sint len) - nat (sint sz)"
    using srest sz0 by (simp add: nat_diff_distrib)
  have "bytes_from buffer (nat (sint sz)) @
        bytes_from (map_option (drop (nat (sint sz))) buffer) (nat (sint len) - nat (sint sz))
        = bytes_from buffer (nat (sint len))"
    using szl sz0 by (intro bytes_from_split) simp
  then show ?case
    unfolding unf using IH d2 s2 szm sz0 nsplit by simp
qed


lemma uint_lt_sint_i32: "uint (x :: i32) < 2147483648 \<Longrightarrow> sint x = uint x"
  using sint_of_int_i32 [of "uint x"] uint_ge_0 [of x] by simp

lemma fragments_needed_pos: "0 < sint m \<Longrightarrow> 0 \<le> sint len \<Longrightarrow> 1 \<le> fragments_needed m len"
proof -
  assume m: "0 < sint m" and l: "0 \<le> sint len"
  show ?thesis
  proof (cases "sint len \<le> sint m")
    case True
    then show ?thesis by (simp add: fragments_needed_def)
  next
    case False
    then have "sint m \<le> sint len + sint m - 1" using m by linarith
    then have "sint m div sint m \<le> (sint len + sint m - 1) div sint m"
      by (rule zdiv_mono1) (use m in simp)
    then show ?thesis using False m by (simp add: fragments_needed_def)
  qed
qed

lemma send_count:
  assumes m: "0 < sint m" and l: "0 \<le> sint len"
  shows "sint (if sint len \<le> sint m then 1 else (len + m - 1) div m :: i32) = fragments_needed m len"
proof (cases "sint len \<le> sint m")
  case True
  then show ?thesis by (simp add: fragments_needed_def)
next
  case False
  have ul: "uint len = sint len" using l by (rule sint_pos_uint)
  have um: "uint m = sint m" using m sint_pos_uint [of m] by simp
  have b: "sint len < 2147483648" "sint m < 2147483648" using sint_bounds_i32(2) by blast+
  have "uint (len + m - 1) = (uint len + uint m - 1) mod 2 ^ 32"
    by (simp add: uint_word_ariths mod_simps)
  also have "\<dots> = sint len + sint m - 1"
    using ul um b m l by simp
  finally have ua: "uint (len + m - 1) = sint len + sint m - 1" .
  have ud: "uint ((len + m - 1) div m) = (sint len + sint m - 1) div sint m"
    using ua um by (simp add: uint_div)
  have "(sint len + sint m - 1) div sint m \<le> (sint len + sint len) div 1"
    using m l False by (intro order_trans [OF zdiv_mono2 zdiv_mono1]) simp_all
  moreover have "(sint len + sint m - 1) div sint m \<le> (sint len + sint m - 1) div 2 \<or> sint m = 1"
    using m l False by (cases "sint m = 1") (simp_all add: zdiv_mono2)
  ultimately have "uint ((len + m - 1) div m) < 2147483648"
    using ud b m False by auto
  then have "sint ((len + m - 1) div m) = uint ((len + m - 1) div m)"
    by (rule uint_lt_sint_i32)
  then show ?thesis using False ud by (simp add: fragments_needed_def)
qed


lemma left_after_tail_sint:
  assumes l: "0 \<le> sint len"
  shows "sint (left_after_tail k len) = sint len - int (extend_by k len)"
proof -
  have e: "int (extend_by k len) \<le> sint len" using l by (simp add: extend_by_def)
  have "extend_by k len < 2147483648" using e sint_bounds_i32(2) [of len] by linarith
  then have "sint (word_of_nat (extend_by k len) :: i32) = int (extend_by k len)"
    by (rule sint_of_nat_i32)
  then show ?thesis
    unfolding left_after_tail_def
    using sint_sub_i32 [of len "word_of_nat (extend_by k len)"] e l sint_bounds_i32 [of len] by simp
qed

lemma message_mode_tail:
  "stream k = 0 \<Longrightarrow> extend_by k len = 0 \<and> left_after_tail k len = len
     \<and> tail_extended k buffer len = snd_queue k"
  by (simp add: extend_by_def tail_room_def left_after_tail_def tail_extended_def)

lemma send_eq:
  assumes m: "0 < sint (mss k)" and l: "0 \<le> sint len"
  shows "send k buffer len = Some
     (if stream k \<noteq> 0 \<and> sint (left_after_tail k len) \<le> 0
      then (0, k\<lparr>snd_queue := tail_extended k buffer len\<rparr>)
      else if 128 \<le> fragments_needed (mss k) (left_after_tail k len)
      then (- 2, k\<lparr>snd_queue := tail_extended k buffer len\<rparr>)
      else (0, k\<lparr>snd_queue := tail_extended k buffer len @
                   fragment_loop (stream k) (mss k)
                     (nat (fragments_needed (mss k) (left_after_tail k len))) 0
                     (map_option (drop (extend_by k len)) buffer) (left_after_tail k len)\<rparr>))"
proof -
  define L1 where "L1 = left_after_tail k len"
  have m0: "mss k \<noteq> 0" using m by auto
  have l1: "0 \<le> sint L1"
    unfolding L1_def using left_after_tail_sint [OF l, of k] l by (simp add: extend_by_def)
  have pre: "(if stream k \<noteq> 0 then append_to_tail k buffer len else (snd_queue k, buffer, len))
        = (tail_extended k buffer len, map_option (drop (extend_by k len)) buffer, L1)"
  proof (cases "stream k = 0")
    case True
    have "map_option (drop 0) buffer = buffer" by (cases buffer) simp_all
    then show ?thesis using True message_mode_tail [OF True, of len buffer] by (simp add: L1_def)
  next
    case False
    then show ?thesis using append_to_tail_eq [OF m l False] by (simp add: L1_def)
  qed
  define c0 :: i32 where "c0 = (if sint L1 \<le> sint (mss k) then 1 else (L1 + mss k - 1) div mss k)"
  have c0: "sint c0 = fragments_needed (mss k) L1" unfolding c0_def by (rule send_count [OF m l1])
  have c0pos: "1 \<le> sint c0" using c0 fragments_needed_pos [OF m l1] by simp
  have c0nz: "c0 \<noteq> 0" using c0pos by auto
  have lneg: "\<not> sint len < 0" using l by simp
  show ?thesis
    unfolding send_def pre
    using m0 lneg c0 c0nz
    by (simp add: Let_def L1_def [symmetric] c0_def [symmetric] IKCP_WND_RCV_def)
qed


lemma rev_upt_map: "rev [0..<c] = map (\<lambda>j. c - j - 1) [0..<c]"
  by (rule nth_equalityI) (auto simp: rev_nth)

text \<open>
  Claim C2, amended. Let \<open>mss\<close> be positive as an \<open>int\<close> and \<open>len \<ge> 0\<close>. \<open>send\<close>
  returns -2 exactly when the length left after the tail segment of \<open>snd_queue\<close> has been
  filled needs at least 128 fragments. Where the tail has no room (always in message mode,
  and in stream mode when the queue is empty or its tail holds \<open>mss\<close> bytes) that length
  is \<open>len\<close>, and a \<open>send\<close> that returns -2 leaves the control block unchanged.
\<close>

theorem send_too_many_fragments:
  assumes "0 < sint (mss k)" and "0 \<le> sint len"
  shows "((\<exists>k'. send k buffer len = Some (- 2, k'))
            = (128 \<le> fragments_needed (mss k) (left_after_tail k len)))
       \<and> (tail_room k = 0 \<longrightarrow>
            left_after_tail k len = len \<and> (\<forall>k'. send k buffer len = Some (- 2, k') \<longrightarrow> k' = k))
       \<and> (stream k = 0 \<longrightarrow> tail_room k = 0)"
proof -
  have small: "sint (left_after_tail k len) \<le> 0
               \<Longrightarrow> \<not> 128 \<le> fragments_needed (mss k) (left_after_tail k len)"
    using assms(1) by (simp add: fragments_needed_def)
  have a: "(\<exists>k'. send k buffer len = Some (- 2, k'))
            = (128 \<le> fragments_needed (mss k) (left_after_tail k len))"
    using send_eq [OF assms, of buffer] small by auto
  have b: "left_after_tail k len = len \<and> (\<forall>k'. send k buffer len = Some (- 2, k') \<longrightarrow> k' = k)"
    if r: "tail_room k = 0"
  proof -
    have e: "extend_by k len = 0" using r by (simp add: extend_by_def)
    have t: "tail_extended k buffer len = snd_queue k"
      using r by (auto simp: tail_extended_def tail_room_def split: if_splits)
    have l: "left_after_tail k len = len" using e by (simp add: left_after_tail_def)
    show ?thesis using send_eq [OF assms, of buffer] by (auto simp: t l split: if_splits)
  qed
  have c: "stream k = 0 \<longrightarrow> tail_room k = 0" by (simp add: tail_room_def)
  show ?thesis using a b c by blast
qed

definition small_mtu_state :: kcp where
  "small_mtu_state = (kcp_new 1)\<lparr>mtu := 50, mss := 26\<rparr>"

theorem send_too_many_fragments_witness:
  "send small_mtu_state None 3328 = Some (- 2, small_mtu_state)"
proof -
  have r: "tail_room small_mtu_state = 0"
    by (simp add: tail_room_def small_mtu_state_def kcp_new_def)
  have m: "0 < sint (mss small_mtu_state)" by (simp add: small_mtu_state_def)
  have l: "0 \<le> sint (3328 :: i32)" by simp
  have f: "128 \<le> fragments_needed (mss small_mtu_state) 3328"
    by (simp add: fragments_needed_def small_mtu_state_def)
  from send_too_many_fragments [OF m l, of None] r f show ?thesis by auto
qed

text \<open>
  The claim as stated fails in stream mode, where the fragments are counted after the tail
  segment has taken its share: with \<open>mss = 26\<close> and a queued segment of one byte, a
  send of 3303 bytes, a length that needs 128 fragments, returns 0, since the tail takes 25
  bytes and the 3278 bytes left need 127.
\<close>

definition stream_tail_state :: kcp where
  "stream_tail_state = small_mtu_state\<lparr>stream := 1, snd_queue := [new_segment 1]\<rparr>"

lemma stream_tail_state_reached:
  "run LONG32 (kcp_new 1) [SetMtu 50, SetStreamMode True, Send None 1] = Some stream_tail_state"
proof -
  have a: "snd (set_mtu (kcp_new 1) 50) = small_mtu_state"
    by (simp add: set_mtu_def kcp_new_def small_mtu_state_def IKCP_defs)
  have m: "0 < sint (mss (set_stream_mode small_mtu_state True))"
    by (simp add: set_stream_mode_def small_mtu_state_def)
  have f: "fragment_loop 1 26 1 0 None 1 = [new_segment 1]"
    by (simp add: fragment_loop_unfold fragment_loop_done Let_def new_segment_def)
  have "send (set_stream_mode small_mtu_state True) None 1 = Some (0, stream_tail_state)"
    using send_eq [OF m, of 1 None] f
    by (simp add: set_stream_mode_def small_mtu_state_def kcp_new_def tail_extended_def
        left_after_tail_def extend_by_def tail_room_def fragments_needed_def stream_tail_state_def)
  then show ?thesis using a by simp
qed

theorem send_too_many_fragments_counterexample:
  "run LONG32 (kcp_new 1) [SetMtu 50, SetStreamMode True, Send None 1] = Some stream_tail_state
   \<and> fragments_needed (mss stream_tail_state) 3303 = 128
   \<and> (\<exists>k'. send stream_tail_state None 3303 = Some (0, k'))
   \<and> (\<forall>k'. send stream_tail_state None 3303 \<noteq> Some (- 2, k'))"
proof -
  have m: "0 < sint (mss stream_tail_state)"
    by (simp add: stream_tail_state_def small_mtu_state_def)
  have room: "tail_room stream_tail_state = 25"
    by (simp add: tail_room_def stream_tail_state_def small_mtu_state_def new_segment_def)
  have ext: "extend_by stream_tail_state 3303 = 25"
    by (simp add: extend_by_def room)
  have left: "left_after_tail stream_tail_state 3303 = 3278"
    by (simp add: left_after_tail_def ext)
  have fn: "fragments_needed (mss stream_tail_state) 3303 = 128"
    by (simp add: fragments_needed_def stream_tail_state_def small_mtu_state_def)
  have fl: "fragments_needed (mss stream_tail_state) 3278 = 127"
    by (simp add: fragments_needed_def stream_tail_state_def small_mtu_state_def)
  have "\<exists>k'. send stream_tail_state None 3303 = Some (0, k')"
    using send_eq [OF m, of 3303 None] by (simp add: left fl)
  then show ?thesis using stream_tail_state_reached fn by auto
qed

text \<open>
  Claim C9, amended. For every successful \<open>send\<close> (\<open>mss\<close> positive as an \<open>int\<close>): in
  stream mode, when \<open>snd_queue\<close> is non-empty and its tail holds fewer than \<open>mss\<close> bytes,
  up to \<open>mss - tail.size\<close> bytes are appended to the tail, whose \<open>frg\<close> becomes 0; when
  no byte is left after that in stream mode (also for \<open>len == 0\<close>) nothing else is
  appended. Otherwise \<open>count = ceil(len / mss)\<close> fresh segments (1 when the length left is
  at most \<open>mss\<close>), fewer than 128, are appended to \<open>snd_queue\<close>, each with at most
  \<open>mss\<close> bytes and together carrying the bytes left in order, with \<open>frg\<close> running from
  \<open>count - 1\<close> down to 0 in message mode and all 0 in stream mode, and with \<open>sn\<close> left 0.
\<close>

theorem send_appends_fragments:
  assumes "0 < sint (mss k)" and "send k buffer len = Some (0, k')"
  shows "\<exists>fresh. k' = k\<lparr>snd_queue := tail_extended k buffer len @ fresh\<rparr> \<and>
     (if stream k \<noteq> 0 \<and> left_after_tail k len = 0 then fresh = []
      else int (length fresh) = fragments_needed (mss k) (left_after_tail k len)
         \<and> length fresh < 128
         \<and> map frg fresh = (if stream k = 0 then map word_of_nat (rev [0..<length fresh])
                            else replicate (length fresh) 0)
         \<and> (\<forall>s\<in>set fresh. sn s = 0 \<and> length (data s) \<le> unat (mss k))
         \<and> concat (map data fresh)
             = bytes_from (map_option (drop (extend_by k len)) buffer)
                 (nat (sint (left_after_tail k len))))"
proof -
  have m0: "mss k \<noteq> 0" using assms(1) by auto
  have l: "0 \<le> sint len"
  proof (rule ccontr)
    assume "\<not> 0 \<le> sint len"
    then have "send k buffer len = Some (- 1, k)" using m0 by (simp add: send_def)
    with assms(2) show False by simp
  qed
  define L1 where "L1 = left_after_tail k len"
  define c where "c = nat (fragments_needed (mss k) L1)"
  define fresh where "fresh = fragment_loop (stream k) (mss k) c 0
                     (map_option (drop (extend_by k len)) buffer) L1"
  have l1: "0 \<le> sint L1"
    unfolding L1_def using left_after_tail_sint [OF l, of k] l by (simp add: extend_by_def)
  have cpos: "1 \<le> fragments_needed (mss k) L1" by (rule fragments_needed_pos [OF assms(1) l1])
  have um: "unat (mss k) = nat (sint (mss k))" using assms(1) by (simp add: unat_sint_i32)
  have zero_iff: "(sint L1 \<le> 0) = (L1 = 0)"
  proof
    assume "sint L1 \<le> 0"
    then have "sint L1 = 0" using l1 by simp
    moreover have "L1 = word_of_int (sint L1)" by simp
    ultimately show "L1 = 0" by simp
  qed simp
  show ?thesis
  proof (cases "stream k \<noteq> 0 \<and> L1 = 0")
    case True
    then have "k' = k\<lparr>snd_queue := tail_extended k buffer len\<rparr>"
      using send_eq [OF assms(1) l, of buffer] assms(2) by (simp add: L1_def)
    then show ?thesis using True by (intro exI [of _ "[]"]) (simp add: L1_def)
  next
    case False
    then have nz: "\<not> (stream k \<noteq> 0 \<and> sint L1 \<le> 0)" using zero_iff by simp
    have lt: "\<not> 128 \<le> fragments_needed (mss k) L1"
      using send_eq [OF assms(1) l, of buffer] assms(2) nz by (auto simp: L1_def split: if_splits)
    have k': "k' = k\<lparr>snd_queue := tail_extended k buffer len @ fresh\<rparr>"
      using send_eq [OF assms(1) l, of buffer] assms(2) nz lt
      by (simp add: L1_def [symmetric] fresh_def c_def)
    have len: "length fresh = c" by (simp add: fresh_def fragment_loop_length)
    have need: "fragments_needed (mss k) L1 * sint (mss k) \<ge> sint L1"
    proof (cases "sint L1 \<le> sint (mss k)")
      case True
      then show ?thesis by (simp add: fragments_needed_def)
    next
      case False
      let ?M = "sint (mss k)"
      have "(sint L1 + ?M - 1) = (sint L1 + ?M - 1) div ?M * ?M + (sint L1 + ?M - 1) mod ?M"
        by simp
      moreover have "(sint L1 + ?M - 1) mod ?M < ?M" using assms(1) by simp
      ultimately have "sint L1 \<le> (sint L1 + ?M - 1) div ?M * ?M" by linarith
      then show ?thesis using False by (simp add: fragments_needed_def)
    qed
    have fits: "sint L1 \<le> int (c - 0) * sint (mss k)"
      using need cpos by (simp add: c_def)
    have dat: "concat (map data fresh) = bytes_from (map_option (drop (extend_by k len)) buffer) (nat (sint L1))
        \<and> (\<forall>s\<in>set fresh. sn s = 0 \<and> int (length (data s)) \<le> sint (mss k))"
      unfolding fresh_def by (rule fragment_loop_data [OF assms(1) l1 fits])
    have frgs: "map frg fresh = (if stream k = 0 then map word_of_nat (rev [0..<length fresh])
                            else replicate (length fresh) 0)"
      unfolding len unfolding fresh_def by (simp add: fragment_loop_frg rev_upt_map)
    have "int (length fresh) = fragments_needed (mss k) L1" using len cpos by (simp add: c_def)
    moreover have "length fresh < 128" using len lt cpos by (simp add: c_def)
    moreover have "\<forall>s\<in>set fresh. sn s = 0 \<and> length (data s) \<le> unat (mss k)"
      using dat um by auto
    ultimately show ?thesis
      using False k' frgs dat by (intro exI [of _ fresh]) (auto simp: L1_def)
  qed
qed

theorem send_appends_fragments_witness:
  "\<exists>fresh. snd (the (send small_mtu_state None 60)) = small_mtu_state\<lparr>snd_queue := fresh\<rparr>
     \<and> map frg fresh = [2, 1, 0] \<and> concat (map data fresh) = replicate 60 0"
proof -
  have m: "0 < sint (mss small_mtu_state)" by (simp add: small_mtu_state_def)
  have l: "0 \<le> sint (60 :: i32)" by simp
  have fn: "fragments_needed (mss small_mtu_state) 60 = 3"
    by (simp add: fragments_needed_def small_mtu_state_def)
  have t: "left_after_tail small_mtu_state 60 = 60" "tail_extended small_mtu_state None 60 = []"
      "extend_by small_mtu_state 60 = 0" "stream small_mtu_state = 0"
    using message_mode_tail [of small_mtu_state 60 None]
    by (simp_all add: small_mtu_state_def kcp_new_def)
  obtain k' where s: "send small_mtu_state None 60 = Some (0, k')"
    using send_eq [OF m l, of None] by (simp add: fn t)
  have u: "rev [0..<3] = [2, 1, 0::nat]" by (simp add: upt_rec)
  from send_appends_fragments [OF m s] obtain fresh where
    f: "k' = small_mtu_state\<lparr>snd_queue := tail_extended small_mtu_state None 60 @ fresh\<rparr> \<and>
     (if stream small_mtu_state \<noteq> 0 \<and> left_after_tail small_mtu_state 60 = 0 then fresh = []
      else int (length fresh) = fragments_needed (mss small_mtu_state) (left_after_tail small_mtu_state 60)
         \<and> length fresh < 128
         \<and> map frg fresh = (if stream small_mtu_state = 0 then map word_of_nat (rev [0..<length fresh])
                            else replicate (length fresh) 0)
         \<and> (\<forall>s\<in>set fresh. sn s = 0 \<and> length (data s) \<le> unat (mss small_mtu_state))
         \<and> concat (map data fresh)
             = bytes_from (map_option (drop (extend_by small_mtu_state 60)) None)
                 (nat (sint (left_after_tail small_mtu_state 60))))"
    by blast
  have k': "k' = small_mtu_state\<lparr>snd_queue := fresh\<rparr>" using f by (simp add: t)
  have n: "length fresh = 3" using f by (simp add: t fn)
  have g: "map frg fresh = map word_of_nat (rev [0..<length fresh])" using f by (simp add: t)
  have d: "concat (map data fresh) = bytes_from None 60" using f by (simp add: t)
  show ?thesis
    using s k' g d unfolding n u by (intro exI [of _ fresh]) (simp add: bytes_from_def)
qed

text \<open>
  The claim as stated fails for a send that leaves no byte in stream mode: a send of 0
  bytes returns 0 and appends no segment.
\<close>

theorem send_appends_fragments_counterexample:
  "send (set_stream_mode (kcp_new 1) True) None 0 = Some (0, set_stream_mode (kcp_new 1) True)
   \<and> snd_queue (set_stream_mode (kcp_new 1) True) = []"
  by (simp add: send_def set_stream_mode_def kcp_new_def append_to_tail_def IKCP_defs)

subsection \<open>The RTT estimator\<close>

lemma sint_mult_i32:
  "- 2147483648 \<le> sint a * sint b \<Longrightarrow> sint a * sint b < 2147483648 \<Longrightarrow>
   sint (a * b :: i32) = sint a * sint b"
  by (simp add: sint_word_mult signed_take_bit_int_eq_self)

lemma uint_max_word: "uint (max a b :: 'a::len word) = max (uint a) (uint b)"
  by (simp add: max_def word_le_def)

lemma uint_min_word: "uint (min a b :: 'a::len word) = min (uint a) (uint b)"
  by (simp add: min_def word_le_def)

lemma long_wrap_id:
  "- 2147483648 \<le> v \<Longrightarrow> v < 2147483648 \<Longrightarrow> long_wrap dm v = v"
  by (cases dm) (simp_all add: long_wrap_def sint_sbintrunc' signed_take_bit_int_eq_self)

lemma sdiv_nonneg: "0 \<le> (a :: int) \<Longrightarrow> 0 < b \<Longrightarrow> a sdiv b = a div b"
  by (simp add: signed_divide_int_def sgn_if)

lemma uint_add_u32:
  "uint a + uint b < 4294967296 \<Longrightarrow> uint (a + b :: u32) = uint a + uint b"
  using uint_add_lem [of a b] by simp

text \<open>
  Claim C5, amended. For every sample \<open>r\<close> fed to \<open>update_ack\<close>, with \<open>r\<close>, \<open>rx_srtt\<close>
  and \<open>rx_rttval\<close> in $[0, 2^{28})$, \<open>interval\<close> below $2^{31}$ and \<open>rx_minrto\<close> not
  negative (no 32-bit operation overflows then, and the new \<open>rx_srtt\<close> and \<open>rx_rttval\<close>
  are in $[0, 2^{28})$ again): when \<open>rx_srtt\<close> is 0, \<open>rx_srtt\<close> becomes \<open>r\<close> and
  \<open>rx_rttval\<close> becomes \<open>r / 2\<close>; when \<open>rx_srtt\<close> is not 0, \<open>rx_rttval\<close> becomes
  \<open>(3 * rx_rttval + |r - rx_srtt|) / 4\<close> and \<open>rx_srtt\<close> becomes
  \<open>max((7 * rx_srtt + r) / 8, 1)\<close>, in exact integer arithmetic; afterwards \<open>rx_rto\<close> is
  \<open>min(max(rx_minrto, rx_srtt + max(interval, 4 * rx_rttval)), 60000)\<close>.
\<close>

theorem update_ack_estimator:
  assumes r: "0 \<le> sint r" "sint r < 268435456"
    and s: "0 \<le> sint (rx_srtt k)" "sint (rx_srtt k) < 268435456"
    and v: "0 \<le> sint (rx_rttval k)" "sint (rx_rttval k) < 268435456"
    and i: "uint (interval k) < 2147483648"
    and mr: "0 \<le> sint (rx_minrto k)"
  shows "(rx_srtt k = 0 \<longrightarrow>
            sint (rx_srtt (update_ack dm k r)) = sint r
          \<and> sint (rx_rttval (update_ack dm k r)) = sint r div 2)
       \<and> (rx_srtt k \<noteq> 0 \<longrightarrow>
            sint (rx_rttval (update_ack dm k r))
              = (3 * sint (rx_rttval k) + \<bar>sint r - sint (rx_srtt k)\<bar>) div 4
          \<and> sint (rx_srtt (update_ack dm k r)) = max ((7 * sint (rx_srtt k) + sint r) div 8) 1)
       \<and> sint (rx_rto (update_ack dm k r))
            = min (max (sint (rx_minrto k))
                       (sint (rx_srtt (update_ack dm k r))
                        + max (uint (interval k)) (4 * sint (rx_rttval (update_ack dm k r)))))
                  60000
       \<and> 0 \<le> sint (rx_srtt (update_ack dm k r)) \<and> sint (rx_srtt (update_ack dm k r)) < 268435456
       \<and> 0 \<le> sint (rx_rttval (update_ack dm k r)) \<and> sint (rx_rttval (update_ack dm k r)) < 268435456"
proof -
  define k1 where "k1 =
        (if rx_srtt k = 0
         then k\<lparr>rx_srtt := r, rx_rttval := word_of_int (sint r sdiv 2)\<rparr>
         else
           let delta0 = sint (r - rx_srtt k);
               delta = (if delta0 < 0 then long_wrap dm (- delta0) else delta0);
               rttval = word_of_int (long_wrap dm (sint (3 * rx_rttval k) + delta) sdiv 4);
               srtt = word_of_int (sint (7 * rx_srtt k + r) sdiv 8)
           in k\<lparr>rx_rttval := rttval, rx_srtt := (if sint srtt < 1 then 1 else srtt)\<rparr>)"
  have ua: "update_ack dm k r =
     k1\<lparr>rx_rto := ibound (rx_minrto k1) (rx_srtt k1 + max (interval k1) (4 * rx_rttval k1)) IKCP_RTO_MAX\<rparr>"
    unfolding update_ack_def k1_def Let_def by simp
  have same: "interval k1 = interval k" "rx_minrto k1 = rx_minrto k"
    by (simp_all add: k1_def Let_def)
  have first: "sint (rx_srtt k1) = sint r \<and> sint (rx_rttval k1) = sint r div 2" if z: "rx_srtt k = 0"
  proof -
    have "sint (word_of_int (sint r sdiv 2) :: i32) = sint r div 2"
      using r by (subst sint_of_int_i32) (simp_all add: sdiv_nonneg)
    then show ?thesis using z by (simp add: k1_def)
  qed
  have later: "sint (rx_rttval k1) = (3 * sint (rx_rttval k) + \<bar>sint r - sint (rx_srtt k)\<bar>) div 4
             \<and> sint (rx_srtt k1) = max ((7 * sint (rx_srtt k) + sint r) div 8) 1" if nz: "rx_srtt k \<noteq> 0"
  proof -
    have d0: "sint (r - rx_srtt k) = sint r - sint (rx_srtt k)"
      using r s by (intro sint_sub_i32) simp_all
    define delta where "delta = (if sint (r - rx_srtt k) < 0 then long_wrap dm (- sint (r - rx_srtt k))
                                 else sint (r - rx_srtt k))"
    have dl: "delta = \<bar>sint r - sint (rx_srtt k)\<bar>"
      unfolding delta_def d0 using r s by (simp add: long_wrap_id)
    have dlb: "0 \<le> delta" "delta < 268435456" using dl r s by simp_all
    have m3: "sint (3 * rx_rttval k) = 3 * sint (rx_rttval k)"
      using v sint_mult_i32 [of 3 "rx_rttval k"] by simp
    have sum: "long_wrap dm (sint (3 * rx_rttval k) + delta) = 3 * sint (rx_rttval k) + delta"
      using m3 v dlb by (simp add: long_wrap_id)
    have q4: "(3 * sint (rx_rttval k) + delta) sdiv 4 = (3 * sint (rx_rttval k) + delta) div 4"
      using v dlb by (simp add: sdiv_nonneg)
    have q4b: "0 \<le> (3 * sint (rx_rttval k) + delta) div 4" "(3 * sint (rx_rttval k) + delta) div 4 < 268435456"
      using v dlb by simp_all
    have rv: "sint (word_of_int ((3 * sint (rx_rttval k) + delta) div 4) :: i32)
                = (3 * sint (rx_rttval k) + delta) div 4"
      using q4b by (intro sint_of_int_i32) simp_all
    have m7: "sint (7 * rx_srtt k) = 7 * sint (rx_srtt k)"
      using s sint_mult_i32 [of 7 "rx_srtt k"] by simp
    have s7: "sint (7 * rx_srtt k + r) = 7 * sint (rx_srtt k) + sint r"
      using m7 s r sint_add_i32 [of "7 * rx_srtt k" r] by simp
    have q8: "(7 * sint (rx_srtt k) + sint r) sdiv 8 = (7 * sint (rx_srtt k) + sint r) div 8"
      using s r by (simp add: sdiv_nonneg)
    have q8b: "0 \<le> (7 * sint (rx_srtt k) + sint r) div 8" "(7 * sint (rx_srtt k) + sint r) div 8 < 268435456"
      using s r by simp_all
    have sv: "sint (word_of_int ((7 * sint (rx_srtt k) + sint r) div 8) :: i32)
                = (7 * sint (rx_srtt k) + sint r) div 8"
      using q8b by (intro sint_of_int_i32) simp_all
    have k1': "k1 = k\<lparr>rx_rttval := word_of_int ((3 * sint (rx_rttval k) + delta) div 4),
                     rx_srtt := (if (7 * sint (rx_srtt k) + sint r) div 8 < 1 then 1
                                 else word_of_int ((7 * sint (rx_srtt k) + sint r) div 8))\<rparr>"
      unfolding k1_def Let_def using nz sum q4 s7 q8 sv
      by (simp add: delta_def [symmetric])
    show ?thesis
      unfolding k1' using rv sv dl by (simp add: max_def)
  qed
  have b1: "0 \<le> sint (rx_srtt k1) \<and> sint (rx_srtt k1) < 268435456
          \<and> 0 \<le> sint (rx_rttval k1) \<and> sint (rx_rttval k1) < 268435456"
  proof (cases "rx_srtt k = 0")
    case True
    then show ?thesis using first r by simp
  next
    case False
    then show ?thesis using later r s v by (auto simp: max_def)
  qed
  have u4: "uint (4 * rx_rttval k1) = 4 * sint (rx_rttval k1)"
  proof -
    have "sint (4 * rx_rttval k1) = 4 * sint (rx_rttval k1)"
      using b1 sint_mult_i32 [of 4 "rx_rttval k1"] by simp
    moreover have "0 \<le> sint (4 * rx_rttval k1)" using calculation b1 by simp
    ultimately show ?thesis using sint_pos_uint [of "4 * rx_rttval k1"] by simp
  qed
  have us: "uint (rx_srtt k1) = sint (rx_srtt k1)" using b1 by (simp add: sint_pos_uint)
  have um: "uint (max (interval k) (4 * rx_rttval k1)) = max (uint (interval k)) (4 * sint (rx_rttval k1))"
    by (simp add: uint_max_word u4)
  have rto: "uint (rx_srtt k1 + max (interval k) (4 * rx_rttval k1))
               = sint (rx_srtt k1) + max (uint (interval k)) (4 * sint (rx_rttval k1))"
  proof -
    have "sint (rx_srtt k1) + max (uint (interval k)) (4 * sint (rx_rttval k1)) < 4294967296"
      using b1 i by (auto simp: max_def)
    then show ?thesis
      using uint_add_u32 [of "rx_srtt k1" "max (interval k) (4 * rx_rttval k1)"] us um by simp
  qed
  have umr: "uint (rx_minrto k) = sint (rx_minrto k)" using mr by (rule sint_pos_uint)
  have ub: "uint (ibound (rx_minrto k) (rx_srtt k1 + max (interval k) (4 * rx_rttval k1)) IKCP_RTO_MAX)
          = min (max (sint (rx_minrto k)) (sint (rx_srtt k1) + max (uint (interval k)) (4 * sint (rx_rttval k1)))) 60000"
    by (simp add: ibound_def uint_min_word uint_max_word rto umr IKCP_RTO_MAX_def)
  have sb: "sint (ibound (rx_minrto k) (rx_srtt k1 + max (interval k) (4 * rx_rttval k1)) IKCP_RTO_MAX)
          = min (max (sint (rx_minrto k)) (sint (rx_srtt k1) + max (uint (interval k)) (4 * sint (rx_rttval k1)))) 60000"
    using ub uint_lt_sint_i32 [of "ibound (rx_minrto k) (rx_srtt k1 + max (interval k) (4 * rx_rttval k1)) IKCP_RTO_MAX"]
    by simp
  show ?thesis
    unfolding ua using first later b1 sb by (simp add: same)
qed

theorem update_ack_estimator_witness:
  "sint (rx_srtt (update_ack LONG32 (kcp_new 1) 100)) = 100
   \<and> sint (rx_rttval (update_ack LONG32 (kcp_new 1) 100)) = 50
   \<and> sint (rx_rto (update_ack LONG32 (kcp_new 1) 100)) = 300"
  using update_ack_estimator [of 100 "kcp_new 1" LONG32]
  by (simp add: kcp_new_def IKCP_defs)

text \<open>
  The claim as stated fails for the sample after a first sample of 0: \<open>rx_srtt\<close> is still
  0, so the second sample 100 is taken as a first one (\<open>rx_srtt = 100\<close>, \<open>rx_rttval = 50\<close>)
  where the rule for subsequent samples gives 12 and 25.
\<close>

theorem update_ack_estimator_counterexample:
  "rx_srtt (update_ack LONG32 (kcp_new 1) 0) = 0
   \<and> rx_rttval (update_ack LONG32 (kcp_new 1) 0) = 0
   \<and> sint (rx_srtt (update_ack LONG32 (update_ack LONG32 (kcp_new 1) 0) 100)) = 100
   \<and> max ((7 * sint (rx_srtt (update_ack LONG32 (kcp_new 1) 0)) + 100) div 8) 1 = 12
   \<and> sint (rx_rttval (update_ack LONG32 (update_ack LONG32 (kcp_new 1) 0) 100)) = 50
   \<and> (3 * sint (rx_rttval (update_ack LONG32 (kcp_new 1) 0))
        + \<bar>100 - sint (rx_srtt (update_ack LONG32 (kcp_new 1) 0))\<bar>) div 4 = 25"
  by (simp add: update_ack_def kcp_new_def Let_def IKCP_defs ibound_def signed_divide_int_def)

subsection \<open>Frames\<close>

text \<open>The members that \<open>input\<close> may change are reset by \<open>erase_ingress\<close>: two control blocks with the same image agree on every other member.\<close>

definition erase_ingress :: "kcp \<Rightarrow> kcp" where
  "erase_ingress k = k\<lparr>rmt_wnd := 0, snd_buf := [], snd_una := 0, rx_srtt := 0, rx_rttval := 0, rx_rto := 0, acklist := [], rcv_buf := [], rcv_queue := [], rcv_nxt := 0, probe := 0, cwnd := 0, incr := 0\<rparr>"

lemma erase_ingress_upd [simp]:
  "erase_ingress (k\<lparr>rmt_wnd := x0\<rparr>) = erase_ingress k"
  "erase_ingress (k\<lparr>snd_buf := x1\<rparr>) = erase_ingress k"
  "erase_ingress (k\<lparr>snd_una := x2\<rparr>) = erase_ingress k"
  "erase_ingress (k\<lparr>rx_srtt := x3\<rparr>) = erase_ingress k"
  "erase_ingress (k\<lparr>rx_rttval := x4\<rparr>) = erase_ingress k"
  "erase_ingress (k\<lparr>rx_rto := x5\<rparr>) = erase_ingress k"
  "erase_ingress (k\<lparr>acklist := x6\<rparr>) = erase_ingress k"
  "erase_ingress (k\<lparr>rcv_buf := x7\<rparr>) = erase_ingress k"
  "erase_ingress (k\<lparr>rcv_queue := x8\<rparr>) = erase_ingress k"
  "erase_ingress (k\<lparr>rcv_nxt := x9\<rparr>) = erase_ingress k"
  "erase_ingress (k\<lparr>probe := x10\<rparr>) = erase_ingress k"
  "erase_ingress (k\<lparr>cwnd := x11\<rparr>) = erase_ingress k"
  "erase_ingress (k\<lparr>incr := x12\<rparr>) = erase_ingress k"
  by (simp_all add: erase_ingress_def)

lemma erase_ingress_fields:
  assumes e: "erase_ingress k' = erase_ingress k"
  shows "kcp_conv k' = kcp_conv k"
    and "mtu k' = mtu k"
    and "mss k' = mss k"
    and "state k' = state k"
    and "snd_nxt k' = snd_nxt k"
    and "ts_recent k' = ts_recent k"
    and "ts_lastack k' = ts_lastack k"
    and "ssthresh k' = ssthresh k"
    and "rx_minrto k' = rx_minrto k"
    and "snd_wnd k' = snd_wnd k"
    and "rcv_wnd k' = rcv_wnd k"
    and "current k' = current k"
    and "interval k' = interval k"
    and "ts_flush k' = ts_flush k"
    and "kcp_xmit k' = kcp_xmit k"
    and "nodelay k' = nodelay k"
    and "updated k' = updated k"
    and "ts_probe k' = ts_probe k"
    and "probe_wait k' = probe_wait k"
    and "dead_link k' = dead_link k"
    and "snd_queue k' = snd_queue k"
    and "ackblock k' = ackblock k"
    and "fastresend k' = fastresend k"
    and "fastlimit k' = fastlimit k"
    and "nocwnd k' = nocwnd k"
    and "stream k' = stream k"
    and "logmask k' = logmask k"
proof -
  note a = arg_cong [OF e]
  show "kcp_conv k' = kcp_conv k" using a [of kcp_conv] by (simp add: erase_ingress_def)
  show "mtu k' = mtu k" using a [of mtu] by (simp add: erase_ingress_def)
  show "mss k' = mss k" using a [of mss] by (simp add: erase_ingress_def)
  show "state k' = state k" using a [of state] by (simp add: erase_ingress_def)
  show "snd_nxt k' = snd_nxt k" using a [of snd_nxt] by (simp add: erase_ingress_def)
  show "ts_recent k' = ts_recent k" using a [of ts_recent] by (simp add: erase_ingress_def)
  show "ts_lastack k' = ts_lastack k" using a [of ts_lastack] by (simp add: erase_ingress_def)
  show "ssthresh k' = ssthresh k" using a [of ssthresh] by (simp add: erase_ingress_def)
  show "rx_minrto k' = rx_minrto k" using a [of rx_minrto] by (simp add: erase_ingress_def)
  show "snd_wnd k' = snd_wnd k" using a [of snd_wnd] by (simp add: erase_ingress_def)
  show "rcv_wnd k' = rcv_wnd k" using a [of rcv_wnd] by (simp add: erase_ingress_def)
  show "current k' = current k" using a [of current] by (simp add: erase_ingress_def)
  show "interval k' = interval k" using a [of interval] by (simp add: erase_ingress_def)
  show "ts_flush k' = ts_flush k" using a [of ts_flush] by (simp add: erase_ingress_def)
  show "kcp_xmit k' = kcp_xmit k" using a [of kcp_xmit] by (simp add: erase_ingress_def)
  show "nodelay k' = nodelay k" using a [of nodelay] by (simp add: erase_ingress_def)
  show "updated k' = updated k" using a [of updated] by (simp add: erase_ingress_def)
  show "ts_probe k' = ts_probe k" using a [of ts_probe] by (simp add: erase_ingress_def)
  show "probe_wait k' = probe_wait k" using a [of probe_wait] by (simp add: erase_ingress_def)
  show "dead_link k' = dead_link k" using a [of dead_link] by (simp add: erase_ingress_def)
  show "snd_queue k' = snd_queue k" using a [of snd_queue] by (simp add: erase_ingress_def)
  show "ackblock k' = ackblock k" using a [of ackblock] by (simp add: erase_ingress_def)
  show "fastresend k' = fastresend k" using a [of fastresend] by (simp add: erase_ingress_def)
  show "fastlimit k' = fastlimit k" using a [of fastlimit] by (simp add: erase_ingress_def)
  show "nocwnd k' = nocwnd k" using a [of nocwnd] by (simp add: erase_ingress_def)
  show "stream k' = stream k" using a [of stream] by (simp add: erase_ingress_def)
  show "logmask k' = logmask k" using a [of logmask] by (simp add: erase_ingress_def)
qed

lemma erase_ingress_shrink_buffer [simp]: "erase_ingress (shrink_buffer k) = erase_ingress k"
  by (simp add: shrink_buffer_def split: list.splits)

lemma erase_ingress_parse_una [simp]: "erase_ingress (parse_una dm k u) = erase_ingress k"
  by (simp add: parse_una_def)

lemma erase_ingress_parse_ack [simp]: "erase_ingress (parse_ack dm k s) = erase_ingress k"
  by (simp add: parse_ack_def)

lemma erase_ingress_parse_fast_ack [simp]: "erase_ingress (parse_fast_ack dm k s t) = erase_ingress k"
  by (simp add: parse_fast_ack_def)

lemma erase_ingress_update_ack [simp]: "erase_ingress (update_ack dm k r) = erase_ingress k"
  by (simp add: update_ack_def Let_def)

lemma erase_ingress_move_available [simp]: "erase_ingress (move_available k) = erase_ingress k"
  by (simp add: move_available_def split: prod.splits)

lemma erase_ingress_parse_data [simp]: "erase_ingress (parse_data dm k seg) = erase_ingress k"
  by (simp add: parse_data_def)

lemma erase_ingress_grow_cwnd [simp]: "erase_ingress (grow_cwnd k) = erase_ingress k"
  by (simp add: grow_cwnd_def Let_def)

lemma erase_ingress_input_segment [simp]:
  "erase_ingress (fst (input_segment dm k cnv c f w t s u len payload loc)) = erase_ingress k"
  by (simp add: input_segment_def Let_def split: prod.splits)


subsection \<open>The return code of input\<close>

text \<open>
  The return code as the specification words it, for a datagram of \<open>sz\<close> bytes at \<open>p\<close>:
  the datagram is walked segment by segment while at least 24 bytes remain; a \<open>conv\<close>
  (bytes 0 to 3) other than the control block's gives -1, a declared \<open>len\<close> (bytes 20 to
  23) above the bytes that remain behind the header gives -2, a \<open>cmd\<close> (byte 4) that is
  none of PUSH, ACK, WASK and WINS gives -3; the walk goes on behind the payload and ends
  with 0.
\<close>

fun scan_code :: "u32 \<Rightarrow> u8 list \<Rightarrow> nat \<Rightarrow> i32" where
  "scan_code cnv p n =
     (if n < 24 then 0
      else if fst (decode32u p) \<noteq> cnv then - 1
      else if n - 24 < unat (fst (decode32u (drop 20 p))) then - 2
      else if ucast (fst (decode8u (drop 4 p))) \<notin>
                {IKCP_CMD_PUSH, IKCP_CMD_ACK, IKCP_CMD_WASK, IKCP_CMD_WINS} then - 3
      else scan_code cnv (drop (24 + unat (fst (decode32u (drop 20 p)))) p)
             (n - 24 - unat (fst (decode32u (drop 20 p)))))"

declare scan_code.simps [simp del]

lemma decode_rest [simp]:
  "snd (decode32u p) = drop 4 p" "snd (decode16u p) = drop 2 p" "snd (decode8u p) = drop 1 p"
  by (simp_all add: decode32u_def decode16u_def decode8u_def)

lemma input_step_eq:
  "input_step dm k p sz loc =
     (if fst (decode32u p) \<noteq> kcp_conv k then Inl (- 1, k)
      else if sz - 24 < long_of_u32 dm (fst (decode32u (drop 20 p)))
              \<or> sint (fst (decode32u (drop 20 p))) < 0 then Inl (- 2, k)
      else if ucast (fst (decode8u (drop 4 p))) \<notin>
                {IKCP_CMD_PUSH, IKCP_CMD_ACK, IKCP_CMD_WASK, IKCP_CMD_WINS} then Inl (- 3, k)
      else Inr (fst (input_segment dm k (kcp_conv k) (fst (decode8u (drop 4 p)))
                       (fst (decode8u (drop 5 p))) (fst (decode16u (drop 6 p)))
                       (fst (decode32u (drop 8 p))) (fst (decode32u (drop 12 p)))
                       (fst (decode32u (drop 16 p))) (fst (decode32u (drop 20 p))) (drop 24 p) loc),
                drop (24 + unat (fst (decode32u (drop 20 p)))) p,
                sz - 24 - int (unat (fst (decode32u (drop 20 p)))),
                snd (input_segment dm k (kcp_conv k) (fst (decode8u (drop 4 p)))
                       (fst (decode8u (drop 5 p))) (fst (decode16u (drop 6 p)))
                       (fst (decode32u (drop 8 p))) (fst (decode32u (drop 12 p)))
                       (fst (decode32u (drop 16 p))) (fst (decode32u (drop 20 p))) (drop 24 p) loc)))"
  by (simp add: input_step_def Let_def add.commute split: prod.splits)

lemma long_len_check:
  assumes "sz < 2147483648"
  shows "(sz - 24 < long_of_u32 dm len \<or> sint len < 0) = (sz - 24 < int (unat len))"
proof (cases "sint len < 0")
  case True
  have "uint len \<ge> 2147483648"
  proof (rule ccontr)
    assume "\<not> 2147483648 \<le> uint len"
    then have "sint len = uint len" by (intro uint_lt_sint_i32) simp
    then show False using True by simp
  qed
  then show ?thesis using True assms by simp
next
  case False
  then have "uint len = sint len" by (intro sint_pos_uint) simp
  then show ?thesis using False by (cases dm) (simp_all add: long_of_u32_def)
qed

lemma input_segment_conv:
  "kcp_conv (fst (input_segment dm k cnv c f w t s u l pl loc)) = kcp_conv k"
  by (rule erase_ingress_fields(1) [OF erase_ingress_input_segment])

lemma input_loop_code:
  "sz < 2147483648 \<Longrightarrow>
   (case input_loop dm k p sz loc of Inl r \<Rightarrow> fst r | Inr _ \<Rightarrow> 0)
     = scan_code (kcp_conv k) p (nat sz)"
proof (induction dm k p sz loc rule: input_loop.induct)
  case (1 dm k p sz loc)
  define l where "l = fst (decode32u (drop 20 p))"
  define bad where "bad = (ucast (fst (decode8u (drop 4 p))) \<notin>
                {IKCP_CMD_PUSH, IKCP_CMD_ACK, IKCP_CMD_WASK, IKCP_CMD_WINS})"
  show ?case
  proof (cases "sz < 24")
    case True
    then have "nat sz < 24" by linarith
    then have "scan_code (kcp_conv k) p (nat sz) = 0" by (subst scan_code.simps) simp
    then show ?thesis using True by (subst input_loop.simps) simp
  next
    case False
    then have n: "\<not> nat sz < 24" by linarith
    have n24: "(nat sz - 24 < unat l) = (sz - 24 < int (unat l))"
      using False by linarith
    have sub: "nat sz - 24 - unat l = nat (sz - 24 - int (unat l))"
      using False by linarith
    have chk: "(sz - 24 < long_of_u32 dm l \<or> sint l < 0) = (sz - 24 < int (unat l))"
      using 1(2) by (rule long_len_check)
    have scan: "scan_code (kcp_conv k) p (nat sz) =
       (if fst (decode32u p) \<noteq> kcp_conv k then - 1
        else if sz - 24 < int (unat l) then - 2
        else if bad then - 3
        else scan_code (kcp_conv k) (drop (24 + unat l) p) (nat (sz - 24 - int (unat l))))"
      unfolding l_def bad_def
      using n n24 [unfolded l_def] sub [unfolded l_def]
      by (subst scan_code.simps) (simp only: if_False)
    have loop: "input_loop dm k p sz loc =
       (case input_step dm k p sz loc of Inl r \<Rightarrow> Inl r
        | Inr (k', p', sz', loc') \<Rightarrow> input_loop dm k' p' sz' loc')"
      using False by (subst input_loop.simps) simp
    consider (a) "fst (decode32u p) \<noteq> kcp_conv k"
      | (b) "fst (decode32u p) = kcp_conv k" "sz - 24 < int (unat l)"
      | (c) "fst (decode32u p) = kcp_conv k" "\<not> sz - 24 < int (unat l)" "bad"
      | (d) "fst (decode32u p) = kcp_conv k" "\<not> sz - 24 < int (unat l)" "\<not> bad"
      by blast
    then show ?thesis
    proof cases
      case a
      then have "input_step dm k p sz loc = Inl (- 1, k)" by (simp add: input_step_eq)
      then show ?thesis using a by (simp add: loop scan)
    next
      case b
      then have "input_step dm k p sz loc = Inl (- 2, k)"
        using chk [unfolded l_def] by (simp add: input_step_eq l_def)
      then show ?thesis using b by (simp add: loop scan)
    next
      case c
      then have "input_step dm k p sz loc = Inl (- 3, k)"
        using chk [unfolded l_def] by (simp add: input_step_eq l_def bad_def)
      then show ?thesis using c by (simp add: loop scan)
    next
      case d
      obtain k' loc' where st: "input_step dm k p sz loc
            = Inr (k', drop (24 + unat l) p, sz - 24 - int (unat l), loc')"
        and cv: "kcp_conv k' = kcp_conv k"
        using d chk [unfolded l_def]
        by (simp add: input_step_eq l_def bad_def input_segment_conv)
      have "0 \<le> int (unat l)" by (rule of_nat_0_le_iff)
      then have small: "sz - 24 - int (unat l) < 2147483648" using 1(2) by linarith
      have IH: "(case input_loop dm k' (drop (24 + unat l) p) (sz - 24 - int (unat l)) loc'
                   of Inl r \<Rightarrow> fst r | Inr _ \<Rightarrow> 0)
                 = scan_code (kcp_conv k') (drop (24 + unat l) p) (nat (sz - 24 - int (unat l)))"
        using 1(1) [OF False st refl refl refl small] .
      show ?thesis using d IH cv by (simp add: loop scan st)
    qed
  qed
qed

text \<open>
  The walk as the code makes it for any \<open>size\<close>: a declared \<open>len\<close> is also refused
  with -2 when it is $2^{31}$ or more, that is negative as an \<open>int\<close>. For a size that an
  \<open>int\<close> holds such a \<open>len\<close> exceeds the bytes that remain, and the walk is \<open>scan_code\<close>.
\<close>

fun scan_wide :: "u32 \<Rightarrow> u8 list \<Rightarrow> nat \<Rightarrow> i32" where
  "scan_wide cnv p n =
     (if n < 24 then 0
      else if fst (decode32u p) \<noteq> cnv then - 1
      else if n - 24 < unat (fst (decode32u (drop 20 p)))
              \<or> 2147483648 \<le> unat (fst (decode32u (drop 20 p))) then - 2
      else if ucast (fst (decode8u (drop 4 p))) \<notin>
                {IKCP_CMD_PUSH, IKCP_CMD_ACK, IKCP_CMD_WASK, IKCP_CMD_WINS} then - 3
      else scan_wide cnv (drop (24 + unat (fst (decode32u (drop 20 p)))) p)
             (n - 24 - unat (fst (decode32u (drop 20 p)))))"

declare scan_wide.simps [simp del]

lemma scan_wide_code: "n < 2147483648 \<Longrightarrow> scan_wide cnv p n = scan_code cnv p n"
proof (induction cnv p n rule: scan_code.induct)
  case (1 cnv p n)
  define l where "l = unat (fst (decode32u (drop 20 p)))"
  have t: "(n - 24 < l \<or> 2147483648 \<le> l) = (n - 24 < l)" using 1(2) by linarith
  show ?case
  proof (cases "n < 24 \<or> fst (decode32u p) \<noteq> cnv \<or> n - 24 < l
                \<or> ucast (fst (decode8u (drop 4 p))) \<notin>
                     {IKCP_CMD_PUSH, IKCP_CMD_ACK, IKCP_CMD_WASK, IKCP_CMD_WINS}")
    case True
    then show ?thesis
      using t unfolding l_def
      by (subst scan_wide.simps, subst scan_code.simps) auto
  next
    case False
    then have IH: "scan_wide cnv (drop (24 + l) p) (n - 24 - l)
                     = scan_code cnv (drop (24 + l) p) (n - 24 - l)"
      using 1(1) 1(2) unfolding l_def by auto
    show ?thesis
      using False t IH unfolding l_def
      by (subst scan_wide.simps, subst scan_code.simps) auto
  qed
qed

lemma wide_len_check:
  "(sz - 24 < long_of_u32 dm len \<or> sint len < 0)
     = (sz - 24 < int (unat len) \<or> 2147483648 \<le> unat len)"
proof (cases "sint len < 0")
  case True
  have "uint len \<ge> 2147483648"
  proof (rule ccontr)
    assume "\<not> 2147483648 \<le> uint len"
    then have "sint len = uint len" by (intro uint_lt_sint_i32) simp
    then show False using True by simp
  qed
  then have "2147483648 \<le> unat len" unfolding unat_eq_nat_uint by linarith
  then show ?thesis using True by simp
next
  case False
  then have u: "uint len = sint len" by (intro sint_pos_uint) simp
  then have "uint len < 2147483648" using sint_bounds_i32(2) [of len] by simp
  then have n: "\<not> 2147483648 \<le> unat len" unfolding unat_eq_nat_uint by linarith
  have "long_of_u32 dm len = uint len" using u by (cases dm) (simp_all add: long_of_u32_def)
  then show ?thesis using False n by simp
qed

lemma input_loop_wide:
  "(case input_loop dm k p sz loc of Inl r \<Rightarrow> fst r | Inr _ \<Rightarrow> 0)
     = scan_wide (kcp_conv k) p (nat sz)"
proof (induction dm k p sz loc rule: input_loop.induct)
  case (1 dm k p sz loc)
  define l where "l = fst (decode32u (drop 20 p))"
  define bad where "bad = (ucast (fst (decode8u (drop 4 p))) \<notin>
                {IKCP_CMD_PUSH, IKCP_CMD_ACK, IKCP_CMD_WASK, IKCP_CMD_WINS})"
  show ?case
  proof (cases "sz < 24")
    case True
    then have "nat sz < 24" by linarith
    then have "scan_wide (kcp_conv k) p (nat sz) = 0" by (subst scan_wide.simps) simp
    then show ?thesis using True by (subst input_loop.simps) simp
  next
    case False
    then have n: "\<not> nat sz < 24" by linarith
    have n24: "(nat sz - 24 < unat l) = (sz - 24 < int (unat l))"
      using False by linarith
    have sub: "nat sz - 24 - unat l = nat (sz - 24 - int (unat l))"
      using False by linarith
    define refuse where "refuse = (sz - 24 < int (unat l) \<or> 2147483648 \<le> unat l)"
    have chk: "(sz - 24 < long_of_u32 dm l \<or> sint l < 0) = refuse"
      unfolding refuse_def by (rule wide_len_check)
    have scan: "scan_wide (kcp_conv k) p (nat sz) =
       (if fst (decode32u p) \<noteq> kcp_conv k then - 1
        else if refuse then - 2
        else if bad then - 3
        else scan_wide (kcp_conv k) (drop (24 + unat l) p) (nat (sz - 24 - int (unat l))))"
      unfolding l_def bad_def refuse_def
      using n n24 [unfolded l_def] sub [unfolded l_def]
      by (subst scan_wide.simps) (simp only: if_False)
    have loop: "input_loop dm k p sz loc =
       (case input_step dm k p sz loc of Inl r \<Rightarrow> Inl r
        | Inr (k', p', sz', loc') \<Rightarrow> input_loop dm k' p' sz' loc')"
      using False by (subst input_loop.simps) simp
    consider (a) "fst (decode32u p) \<noteq> kcp_conv k"
      | (b) "fst (decode32u p) = kcp_conv k" "refuse"
      | (c) "fst (decode32u p) = kcp_conv k" "\<not> refuse" "bad"
      | (d) "fst (decode32u p) = kcp_conv k" "\<not> refuse" "\<not> bad"
      by blast
    then show ?thesis
    proof cases
      case a
      then have "input_step dm k p sz loc = Inl (- 1, k)" by (simp add: input_step_eq)
      then show ?thesis using a by (simp add: loop scan)
    next
      case b
      then have "input_step dm k p sz loc = Inl (- 2, k)"
        using chk [unfolded l_def] by (simp add: input_step_eq l_def)
      then show ?thesis using b by (simp add: loop scan)
    next
      case c
      then have "input_step dm k p sz loc = Inl (- 3, k)"
        using chk [unfolded l_def] by (simp add: input_step_eq l_def bad_def)
      then show ?thesis using c by (simp add: loop scan)
    next
      case d
      obtain k' loc' where st: "input_step dm k p sz loc
            = Inr (k', drop (24 + unat l) p, sz - 24 - int (unat l), loc')"
        and cv: "kcp_conv k' = kcp_conv k"
        using d chk [unfolded l_def]
        by (simp add: input_step_eq l_def bad_def input_segment_conv)
      have IH: "(case input_loop dm k' (drop (24 + unat l) p) (sz - 24 - int (unat l)) loc'
                   of Inl r \<Rightarrow> fst r | Inr _ \<Rightarrow> 0)
                 = scan_wide (kcp_conv k') (drop (24 + unat l) p) (nat (sz - 24 - int (unat l)))"
        using 1(1) [OF False st refl refl refl] .
      show ?thesis using d IH cv by (simp add: loop scan st)
    qed
  qed
qed

text \<open>
  Claim C3, amended. \<open>input\<close> returns -1 when the pointer is null and when \<open>(int)size\<close>,
  the low 32 bits of \<open>size\<close> read as an \<open>int\<close>, is below the 24-byte header; otherwise it
  walks the segments while at least 24 bytes remain and returns -1 when a decoded \<open>conv\<close>
  differs from the control block's, -2 when a declared \<open>len\<close> exceeds the bytes that
  remain or is $2^{31}$ or more, -3 when a decoded \<open>cmd\<close> is none of PUSH = 81, ACK = 82,
  WASK = 83, WINS = 84, and 0 otherwise. For every size that an \<open>int\<close> holds this is the
  claim: -1 for a null pointer, a size below 24 or a differing \<open>conv\<close>, -2 for a \<open>len\<close>
  above the bytes that remain, -3 for an unknown \<open>cmd\<close>, and 0 otherwise.
\<close>

theorem input_return_code:
  "fst (input dm k None sz) = - 1
   \<and> fst (input dm k (Some p) sz)
       = (if sint (word_of_int sz :: i32) < 24 then - 1 else scan_wide (kcp_conv k) p (nat sz))
   \<and> (- 2147483648 \<le> sz \<and> sz < 2147483648 \<longrightarrow>
        fst (input dm k (Some p) sz)
          = (if sz < 24 then - 1 else scan_code (kcp_conv k) p (nat sz)))"
proof -
  have 1: "fst (input dm k None sz) = - 1" by (simp add: input_def)
  have 2: "fst (input dm k (Some p) sz)
       = (if sint (word_of_int sz :: i32) < 24 then - 1 else scan_wide (kcp_conv k) p (nat sz))"
    using input_loop_wide [of dm k p sz "(False, 0, 0)"]
    by (auto simp: input_def Let_def split: sum.splits prod.splits)
  have 3: "fst (input dm k (Some p) sz)
          = (if sz < 24 then - 1 else scan_code (kcp_conv k) p (nat sz))"
    if r: "- 2147483648 \<le> sz" "sz < 2147483648"
  proof -
    have c: "sint (word_of_int sz :: i32) = sz" using r by (rule sint_of_int_i32)
    have "nat sz < 2147483648" using r by linarith
    then show ?thesis using 2 c by (simp add: scan_wide_code)
  qed
  show ?thesis using 1 2 3 by blast
qed

definition wins_datagram :: "u8 list" where
  "wins_datagram = [1, 0, 0, 0, 84, 0, 128, 0, 0, 0, 0, 0, 0, 0, 0, 0, 0, 0, 0, 0, 0, 0, 0, 0]"

theorem input_return_code_witness:
  "fst (input LONG32 (kcp_new 1) (Some wins_datagram) 24) = 0
   \<and> fst (input LONG32 (kcp_new 2) (Some wins_datagram) 24) = - 1
   \<and> fst (input LONG32 (kcp_new 1) (Some (wins_datagram [20 := 1])) 24) = - 2
   \<and> fst (input LONG32 (kcp_new 1) (Some (wins_datagram [4 := 85])) 24) = - 3
   \<and> fst (input LONG32 (kcp_new 1) (Some wins_datagram) 23) = - 1
   \<and> fst (input LONG32 (kcp_new 1) None 24) = - 1"
proof -
  have r: "- 2147483648 \<le> (24 :: int) \<and> (24 :: int) < 2147483648"
    "- 2147483648 \<le> (23 :: int) \<and> (23 :: int) < 2147483648" by simp_all
  note c = input_return_code [THEN conjunct2, THEN conjunct2, THEN mp]
  have 1: "fst (input LONG32 (kcp_new 1) (Some wins_datagram) 24)
             = scan_code (kcp_conv (kcp_new 1)) wins_datagram 24"
    using c [OF r(1), of LONG32 "kcp_new 1" wins_datagram] by simp
  have 2: "fst (input LONG32 (kcp_new 2) (Some wins_datagram) 24)
             = scan_code (kcp_conv (kcp_new 2)) wins_datagram 24"
    using c [OF r(1), of LONG32 "kcp_new 2" wins_datagram] by simp
  have 3: "fst (input LONG32 (kcp_new 1) (Some (wins_datagram [20 := 1])) 24)
             = scan_code (kcp_conv (kcp_new 1)) (wins_datagram [20 := 1]) 24"
    using c [OF r(1), of LONG32 "kcp_new 1" "wins_datagram [20 := 1]"] by simp
  have 4: "fst (input LONG32 (kcp_new 1) (Some (wins_datagram [4 := 85])) 24)
             = scan_code (kcp_conv (kcp_new 1)) (wins_datagram [4 := 85]) 24"
    using c [OF r(1), of LONG32 "kcp_new 1" "wins_datagram [4 := 85]"] by simp
  have 5: "fst (input LONG32 (kcp_new 1) (Some wins_datagram) 23) = - 1"
    using c [OF r(2), of LONG32 "kcp_new 1" wins_datagram] by simp
  have 6: "fst (input LONG32 (kcp_new 1) None 24) = - 1"
    using input_return_code [THEN conjunct1, of LONG32 "kcp_new 1" 24] .
  show ?thesis
    unfolding 1 2 3 4 5 6
    by (simp add: scan_code.simps wins_datagram_def decode32u_def decode8u_def byte_at_def
        kcp_new_def IKCP_defs)
qed

text \<open>
  The claim as stated fails for a size outside the range of \<open>int\<close>, which a 64-bit
  \<open>long\<close> holds: \<open>input\<close> tests \<open>(int)size\<close>. With \<open>size\<close> = $2^{32} + 10$ and a
  header whose \<open>conv\<close> is the control block's, \<open>(int)size\<close> is 10 and \<open>input\<close> returns -1,
  though the pointer is not null, the size is not below 24 and no \<open>conv\<close> differs (the
  walk of the claim ends with -3 at the zero bytes behind the header).
\<close>

definition zero_conv_datagram :: "u8 list" where
  "zero_conv_datagram = [0, 0, 0, 0, 84, 0, 128, 0, 0, 0, 0, 0, 0, 0, 0, 0, 0, 0, 0, 0, 0, 0, 0, 0]"

theorem input_return_code_counterexample:
  "\<not> (4294967306 :: int) < 24
   \<and> fst (input LONG64 (kcp_new 0) (Some zero_conv_datagram) 4294967306) = - 1
   \<and> scan_code (kcp_conv (kcp_new 0)) zero_conv_datagram (nat 4294967306) = - 3"
proof -
  have "sint (word_of_int 4294967306 :: i32) = 10" by simp
  then have a: "fst (input LONG64 (kcp_new 0) (Some zero_conv_datagram) 4294967306) = - 1"
    by (simp add: input_def)
  have b: "scan_code (kcp_conv (kcp_new 0)) zero_conv_datagram (nat 4294967306) = - 3"
    by (simp add: scan_code.simps zero_conv_datagram_def decode32u_def decode8u_def byte_at_def
        kcp_new_def IKCP_defs)
  show ?thesis using a b by simp
qed

subsection \<open>Frames of the other operations\<close>

text \<open>The members that \<open>flush\<close> and \<open>update\<close> may change are reset by \<open>erase_egress\<close>.\<close>

definition erase_egress :: "kcp \<Rightarrow> kcp" where
  "erase_egress k = k\<lparr>acklist := [], probe_wait := 0, ts_probe := 0, probe := 0, snd_queue := [], snd_buf := [], snd_nxt := 0, kcp_xmit := 0, state := 0, ssthresh := 0, cwnd := 0, incr := 0, current := 0, updated := 0, ts_flush := 0\<rparr>"

lemma erase_egress_upd [simp]:
  "erase_egress (k\<lparr>acklist := x0\<rparr>) = erase_egress k"
  "erase_egress (k\<lparr>probe_wait := x1\<rparr>) = erase_egress k"
  "erase_egress (k\<lparr>ts_probe := x2\<rparr>) = erase_egress k"
  "erase_egress (k\<lparr>probe := x3\<rparr>) = erase_egress k"
  "erase_egress (k\<lparr>snd_queue := x4\<rparr>) = erase_egress k"
  "erase_egress (k\<lparr>snd_buf := x5\<rparr>) = erase_egress k"
  "erase_egress (k\<lparr>snd_nxt := x6\<rparr>) = erase_egress k"
  "erase_egress (k\<lparr>kcp_xmit := x7\<rparr>) = erase_egress k"
  "erase_egress (k\<lparr>state := x8\<rparr>) = erase_egress k"
  "erase_egress (k\<lparr>ssthresh := x9\<rparr>) = erase_egress k"
  "erase_egress (k\<lparr>cwnd := x10\<rparr>) = erase_egress k"
  "erase_egress (k\<lparr>incr := x11\<rparr>) = erase_egress k"
  "erase_egress (k\<lparr>current := x12\<rparr>) = erase_egress k"
  "erase_egress (k\<lparr>updated := x13\<rparr>) = erase_egress k"
  "erase_egress (k\<lparr>ts_flush := x14\<rparr>) = erase_egress k"
  by (simp_all add: erase_egress_def)

lemma erase_egress_fields:
  assumes e: "erase_egress k' = erase_egress k"
  shows "kcp_conv k' = kcp_conv k"
    and "mtu k' = mtu k"
    and "mss k' = mss k"
    and "snd_una k' = snd_una k"
    and "rcv_nxt k' = rcv_nxt k"
    and "ts_recent k' = ts_recent k"
    and "ts_lastack k' = ts_lastack k"
    and "rx_rttval k' = rx_rttval k"
    and "rx_srtt k' = rx_srtt k"
    and "rx_rto k' = rx_rto k"
    and "rx_minrto k' = rx_minrto k"
    and "snd_wnd k' = snd_wnd k"
    and "rcv_wnd k' = rcv_wnd k"
    and "rmt_wnd k' = rmt_wnd k"
    and "interval k' = interval k"
    and "nodelay k' = nodelay k"
    and "dead_link k' = dead_link k"
    and "rcv_queue k' = rcv_queue k"
    and "rcv_buf k' = rcv_buf k"
    and "ackblock k' = ackblock k"
    and "fastresend k' = fastresend k"
    and "fastlimit k' = fastlimit k"
    and "nocwnd k' = nocwnd k"
    and "stream k' = stream k"
    and "logmask k' = logmask k"
proof -
  note a = arg_cong [OF e]
  show "kcp_conv k' = kcp_conv k" using a [of kcp_conv] by (simp add: erase_egress_def)
  show "mtu k' = mtu k" using a [of mtu] by (simp add: erase_egress_def)
  show "mss k' = mss k" using a [of mss] by (simp add: erase_egress_def)
  show "snd_una k' = snd_una k" using a [of snd_una] by (simp add: erase_egress_def)
  show "rcv_nxt k' = rcv_nxt k" using a [of rcv_nxt] by (simp add: erase_egress_def)
  show "ts_recent k' = ts_recent k" using a [of ts_recent] by (simp add: erase_egress_def)
  show "ts_lastack k' = ts_lastack k" using a [of ts_lastack] by (simp add: erase_egress_def)
  show "rx_rttval k' = rx_rttval k" using a [of rx_rttval] by (simp add: erase_egress_def)
  show "rx_srtt k' = rx_srtt k" using a [of rx_srtt] by (simp add: erase_egress_def)
  show "rx_rto k' = rx_rto k" using a [of rx_rto] by (simp add: erase_egress_def)
  show "rx_minrto k' = rx_minrto k" using a [of rx_minrto] by (simp add: erase_egress_def)
  show "snd_wnd k' = snd_wnd k" using a [of snd_wnd] by (simp add: erase_egress_def)
  show "rcv_wnd k' = rcv_wnd k" using a [of rcv_wnd] by (simp add: erase_egress_def)
  show "rmt_wnd k' = rmt_wnd k" using a [of rmt_wnd] by (simp add: erase_egress_def)
  show "interval k' = interval k" using a [of interval] by (simp add: erase_egress_def)
  show "nodelay k' = nodelay k" using a [of nodelay] by (simp add: erase_egress_def)
  show "dead_link k' = dead_link k" using a [of dead_link] by (simp add: erase_egress_def)
  show "rcv_queue k' = rcv_queue k" using a [of rcv_queue] by (simp add: erase_egress_def)
  show "rcv_buf k' = rcv_buf k" using a [of rcv_buf] by (simp add: erase_egress_def)
  show "ackblock k' = ackblock k" using a [of ackblock] by (simp add: erase_egress_def)
  show "fastresend k' = fastresend k" using a [of fastresend] by (simp add: erase_egress_def)
  show "fastlimit k' = fastlimit k" using a [of fastlimit] by (simp add: erase_egress_def)
  show "nocwnd k' = nocwnd k" using a [of nocwnd] by (simp add: erase_egress_def)
  show "stream k' = stream k" using a [of stream] by (simp add: erase_egress_def)
  show "logmask k' = logmask k" using a [of logmask] by (simp add: erase_egress_def)
qed

text \<open>The members that \<open>receive\<close> may change are reset by \<open>erase_receive\<close>.\<close>

definition erase_receive :: "kcp \<Rightarrow> kcp" where
  "erase_receive k = k\<lparr>rcv_queue := [], rcv_buf := [], rcv_nxt := 0, probe := 0\<rparr>"

lemma erase_receive_upd [simp]:
  "erase_receive (k\<lparr>rcv_queue := x0\<rparr>) = erase_receive k"
  "erase_receive (k\<lparr>rcv_buf := x1\<rparr>) = erase_receive k"
  "erase_receive (k\<lparr>rcv_nxt := x2\<rparr>) = erase_receive k"
  "erase_receive (k\<lparr>probe := x3\<rparr>) = erase_receive k"
  by (simp_all add: erase_receive_def)



lemma erase_ingress_input_step:
  "input_step dm k p sz loc = Inl (c, k') \<Longrightarrow> k' = k"
  "input_step dm k p sz loc = Inr (k', p', sz', loc') \<Longrightarrow> erase_ingress k' = erase_ingress k"
proof -
  show "input_step dm k p sz loc = Inl (c, k') \<Longrightarrow> k' = k"
    by (auto simp: input_step_eq split: if_splits)
  show "input_step dm k p sz loc = Inr (k', p', sz', loc') \<Longrightarrow> erase_ingress k' = erase_ingress k"
    by (auto simp: input_step_eq split: if_splits)
qed

lemma erase_ingress_input_loop:
  "(case input_loop dm k p sz loc of Inl r \<Rightarrow> erase_ingress (snd r) | Inr r \<Rightarrow> erase_ingress (fst r))
     = erase_ingress k"
proof (induction dm k p sz loc rule: input_loop.induct)
  case (1 dm k p sz loc)
  show ?case
  proof (cases "sz < 24")
    case True
    then show ?thesis by (subst input_loop.simps) simp
  next
    case False
    show ?thesis
    proof (cases "input_step dm k p sz loc")
      case (Inl r)
      then have "snd r = k" using erase_ingress_input_step(1) [of dm k p sz loc "fst r" "snd r"] by simp
      then show ?thesis using False Inl by (subst input_loop.simps) simp
    next
      case (Inr x)
      obtain k' p' sz' loc' where x: "x = (k', p', sz', loc')" by (cases x) auto
      have "erase_ingress k' = erase_ingress k"
        using erase_ingress_input_step(2) Inr x by blast
      then show ?thesis
        using False Inr x 1 [OF False Inr x [symmetric] refl refl]
        by (subst input_loop.simps) simp
    qed
  qed
qed

lemma erase_ingress_input [simp]:
  "erase_ingress (snd (input dm k dat sz)) = erase_ingress k"
proof (cases dat)
  case None
  then show ?thesis by (simp add: input_def)
next
  case (Some p)
  show ?thesis
    using erase_ingress_input_loop [of dm k p sz "(False, 0, 0)"] Some
    by (auto simp: input_def Let_def split: sum.splits prod.splits)
qed

lemma erase_egress_probe_window [simp]: "erase_egress (probe_window dm k) = erase_egress k"
  by (simp add: probe_window_def Let_def)

lemma erase_egress_flush_cwnd [simp]:
  "erase_egress (flush_cwnd k cw resent change lost) = erase_egress k"
  by (simp add: flush_cwnd_def Let_def)

lemma erase_egress_flush_segment:
  "flush_segment dm w resent rtomin seg (k, st, ch, lost) = (seg', (k', st', ch', lost'))
   \<Longrightarrow> erase_egress k' = erase_egress k"
  by (auto simp: flush_segment_def Let_def split: if_splits)

lemma erase_egress_flush_data:
  "flush_data dm w resent rtomin segs (k, st, ch, lost) = (segs', (k', st', ch', lost'))
   \<Longrightarrow> erase_egress k' = erase_egress k"
proof (induction segs arbitrary: k st ch lost segs')
  case Nil
  then show ?case by simp
next
  case (Cons seg segs)
  obtain s1 k1 st1 ch1 lost1 where
    a: "flush_segment dm w resent rtomin seg (k, st, ch, lost) = (s1, (k1, st1, ch1, lost1))"
    by (metis prod_cases5)
  obtain segs2 where
    b: "flush_data dm w resent rtomin segs (k1, st1, ch1, lost1) = (segs2, (k', st', ch', lost'))"
    using Cons.prems a by (auto split: prod.splits)
  show ?case using Cons.IH [OF b] erase_egress_flush_segment [OF a] by simp
qed


lemma erase_receive_move_available [simp]: "erase_receive (move_available k) = erase_receive k"
  by (simp add: move_available_def split: prod.splits)

lemma erase_receive_receive [simp]:
  "erase_receive (snd (snd (receive k buffer len))) = erase_receive k"
  by (simp add: receive_def Let_def split: prod.splits)

lemma erase_receive_receive_vec [simp]:
  "erase_receive (snd (snd (receive_vec k buffer))) = erase_receive k"
proof (cases "sint (PeekSize k) < 0")
  case True
  then show ?thesis by (simp add: receive_vec_def)
next
  case False
  define b1 where "b1 = (if length buffer < unat (PeekSize k)
                       then buffer @ replicate (unat (PeekSize k) - length buffer) 0 else buffer)"
  have "snd (snd (receive_vec k buffer)) = snd (snd (receive k (Some b1) (word_of_nat (length b1))))"
    using False unfolding receive_vec_def Let_def b1_def by (simp split: prod.splits)
  then show ?thesis by simp
qed

lemma send_frame:
  "send k buffer len = Some (r, k') \<Longrightarrow> \<exists>q. k' = k\<lparr>snd_queue := q\<rparr>"
proof -
  have "k = k\<lparr>snd_queue := snd_queue k\<rparr>" by simp
  then have a: "\<exists>q. k = k\<lparr>snd_queue := q\<rparr>" by blast
  assume "send k buffer len = Some (r, k')"
  then show ?thesis using a
    by (auto simp: send_def Let_def split: if_splits prod.splits)
qed

lemma probe_window_snd:
  "snd_queue (probe_window dm k) = snd_queue k"
  "snd_buf (probe_window dm k) = snd_buf k"
  "snd_nxt (probe_window dm k) = snd_nxt k"
  "cwnd (probe_window dm k) = cwnd k"
  by (simp_all add: probe_window_def Let_def)

definition ack_template :: "kcp \<Rightarrow> segment" where
  "ack_template k = (new_segment 0)\<lparr>conv := kcp_conv k, cmd := IKCP_CMD_ACK, frg := 0,
         wnd := window_unused k, una := rcv_nxt k, sn := 0, ts := 0\<rparr>"

lemma flush_result:
  assumes "updated k \<noteq> 0"
  obtains seg1 st1 k1 seg2 st2 seg3 st3 cw q buf nxt k3 resent rtomin segs k4 out staged change lost
  where
    "flush_acks k (ack_template k) (acklist k) ([], []) = (seg1, st1)"
    "k1 = probe_window dm (k\<lparr>acklist := []\<rparr>)"
    "seg2 = (if probe k1 AND IKCP_ASK_SEND \<noteq> 0 then seg1\<lparr>cmd := IKCP_CMD_WASK\<rparr> else seg1)"
    "st2 = (if probe k1 AND IKCP_ASK_SEND \<noteq> 0 then stage k1 st1 seg2 else st1)"
    "seg3 = (if probe k1 AND IKCP_ASK_TELL \<noteq> 0 then seg2\<lparr>cmd := IKCP_CMD_WINS\<rparr> else seg2)"
    "st3 = (if probe k1 AND IKCP_ASK_TELL \<noteq> 0 then stage k1 st2 seg3 else st2)"
    "cw = (if nocwnd k = 0 then min (cwnd k) (min (snd_wnd k) (rmt_wnd k))
           else min (snd_wnd k) (rmt_wnd k))"
    "promote_loop dm (k1\<lparr>probe := 0\<rparr>) cw (wnd seg3) (snd_queue k) (snd_buf k) (snd_nxt k)
       = (q, buf, nxt)"
    "k3 = k1\<lparr>probe := 0, snd_queue := q, snd_buf := buf, snd_nxt := nxt\<rparr>"
    "resent = (if sint (fastresend k) > 0 then fastresend k else 0xffffffff)"
    "rtomin = (if nodelay k = 0 then signed_drop_bit 3 (rx_rto k) else 0)"
    "flush_data dm (wnd seg3) resent rtomin buf (k3, st3, 0, False)
       = (segs, (k4, (out, staged), change, lost))"
    "fst (flush dm k) = flush_cwnd (k4\<lparr>snd_buf := segs\<rparr>) cw resent change lost"
    "snd (flush dm k) = (if staged_size staged > 0 then kcp_output out staged else out)"
proof -
  let ?seg0 = "(new_segment 0)\<lparr>conv := kcp_conv k, cmd := IKCP_CMD_ACK, frg := 0,
         wnd := window_unused k, una := rcv_nxt k, sn := 0, ts := 0\<rparr>"
  obtain seg1 st1 where a: "flush_acks k ?seg0 (acklist k) ([], []) = (seg1, st1)"
    by (cases "flush_acks k ?seg0 (acklist k) ([], [])") auto
  define k1 where "k1 = probe_window dm (k\<lparr>acklist := []\<rparr>)"
  define seg2 where "seg2 = (if probe k1 AND IKCP_ASK_SEND \<noteq> 0
                            then seg1\<lparr>cmd := IKCP_CMD_WASK\<rparr> else seg1)"
  define st2 where "st2 = (if probe k1 AND IKCP_ASK_SEND \<noteq> 0 then stage k1 st1 seg2 else st1)"
  define seg3 where "seg3 = (if probe k1 AND IKCP_ASK_TELL \<noteq> 0
                            then seg2\<lparr>cmd := IKCP_CMD_WINS\<rparr> else seg2)"
  define st3 where "st3 = (if probe k1 AND IKCP_ASK_TELL \<noteq> 0 then stage k1 st2 seg3 else st2)"
  define k2 where "k2 = k1\<lparr>probe := 0\<rparr>"
  define cw0 where "cw0 = min (snd_wnd k2) (rmt_wnd k2)"
  define cw where "cw = (if nocwnd k2 = 0 then min (cwnd k2) cw0 else cw0)"
  obtain q buf nxt where b: "promote_loop dm k2 cw (wnd seg3) (snd_queue k2) (snd_buf k2) (snd_nxt k2)
      = (q, buf, nxt)"
    by (metis prod_cases3)
  define k3 where "k3 = k2\<lparr>snd_queue := q, snd_buf := buf, snd_nxt := nxt\<rparr>"
  define resent where "resent = (if sint (fastresend k3) > 0 then fastresend k3 else 0xffffffff)"
  define rtomin where "rtomin = (if nodelay k3 = 0 then signed_drop_bit 3 (rx_rto k3) else 0)"
  obtain segs k4 out staged change lost where c:
    "flush_data dm (wnd seg3) resent rtomin (snd_buf k3) (k3, st3, 0, False)
       = (segs, (k4, (out, staged), change, lost))"
    by (metis prod_cases5 surj_pair)
  have fl: "flush dm k = (flush_cwnd (k4\<lparr>snd_buf := segs\<rparr>) cw resent change lost,
                      if staged_size staged > 0 then kcp_output out staged else out)"
    using assms a b c
    unfolding flush_def Let_def k1_def seg2_def st2_def seg3_def st3_def cw_def cw0_def
      resent_def rtomin_def k3_def k2_def
    by (simp only: if_False prod.case)
  have e1: "erase_egress k1 = erase_egress k" by (simp add: k1_def)
  note f1 = erase_egress_fields [OF e1]
  have p1: "snd_queue k1 = snd_queue k" "snd_buf k1 = snd_buf k" "snd_nxt k1 = snd_nxt k"
    "cwnd k1 = cwnd k"
    by (simp_all add: k1_def probe_window_snd)
  have cw: "cw = (if nocwnd k = 0 then min (cwnd k) (min (snd_wnd k) (rmt_wnd k))
           else min (snd_wnd k) (rmt_wnd k))"
    by (simp add: cw_def cw0_def k2_def f1 p1)
  have b': "promote_loop dm (k1\<lparr>probe := 0\<rparr>) cw (wnd seg3) (snd_queue k) (snd_buf k) (snd_nxt k)
       = (q, buf, nxt)"
    using b by (simp add: k2_def p1)
  have k3: "k3 = k1\<lparr>probe := 0, snd_queue := q, snd_buf := buf, snd_nxt := nxt\<rparr>"
    by (simp add: k3_def k2_def)
  have r: "resent = (if sint (fastresend k) > 0 then fastresend k else 0xffffffff)"
    by (simp add: resent_def k3_def k2_def f1)
  have rm: "rtomin = (if nodelay k = 0 then signed_drop_bit 3 (rx_rto k) else 0)"
    by (simp add: rtomin_def k3_def k2_def f1)
  have c': "flush_data dm (wnd seg3) resent rtomin buf (k3, st3, 0, False)
       = (segs, (k4, (out, staged), change, lost))"
    using c by (simp add: k3_def)
  show ?thesis
    using that [OF a [folded ack_template_def] k1_def seg2_def st2_def seg3_def st3_def cw b' k3 r rm c']
      fl by simp
qed

lemma erase_egress_flush [simp]: "erase_egress (fst (flush dm k)) = erase_egress k"
proof (cases "updated k = 0")
  case True
  then show ?thesis by (simp add: flush_def)
next
  case False
  show ?thesis
  proof (rule flush_result [OF False, of dm], goal_cases)
    case (1 seg1 st1 k1 seg2 st2 seg3 st3 cw q buf nxt k3 resent rtomin segs k4 out staged change lost)
    have "erase_egress k4 = erase_egress k3" using 1(12) by (rule erase_egress_flush_data)
    then show ?case by (simp add: 1(13) 1(9) 1(2))
  qed
qed

lemma update_result:
  obtains k' where "erase_egress k' = erase_egress k" "updated k' \<noteq> 0"
    "acklist k' = acklist k" "probe_wait k' = probe_wait k" "ts_probe k' = ts_probe k"
    "probe k' = probe k" "snd_queue k' = snd_queue k" "snd_buf k' = snd_buf k"
    "snd_nxt k' = snd_nxt k" "kcp_xmit k' = kcp_xmit k" "state k' = state k"
    "ssthresh k' = ssthresh k" "cwnd k' = cwnd k" "incr k' = incr k" "current k' = c"
    "update dm k c = flush dm k' \<or> update dm k c = (k', [])"
proof -
  define k2 where "k2 = (if updated (k\<lparr>current := c\<rparr>) = 0
       then k\<lparr>current := c, updated := 1, ts_flush := current (k\<lparr>current := c\<rparr>)\<rparr>
       else k\<lparr>current := c\<rparr>)"
  define slap0 where "slap0 = sint (word_of_int (itimediff dm (current k2) (ts_flush k2)) :: i32)"
  define far where "far = (slap0 \<ge> 10000 \<or> slap0 < - 10000)"
  define k3 where "k3 = (if far then k2\<lparr>ts_flush := current k2\<rparr> else k2)"
  define slap where "slap = (if far then 0 else slap0)"
  define k4 where "k4 = k3\<lparr>ts_flush := ts_flush k3 + interval k3\<rparr>"
  define k5 where "k5 = (if itimediff dm (current k4) (ts_flush k4) \<ge> 0
                     then k4\<lparr>ts_flush := current k4 + interval k4\<rparr> else k4)"
  have u: "update dm k c = (if slap \<ge> 0 then flush dm k5 else (k3, []))"
    unfolding update_def Let_def k5_def k4_def slap_def k3_def far_def slap0_def k2_def
    by (simp only:)
  have p2: "\<exists>u t. k2 = k\<lparr>current := c, updated := u, ts_flush := t\<rparr> \<and> u \<noteq> 0"
  proof (cases "updated k = 0")
    case True
    then have "k2 = k\<lparr>current := c, updated := 1, ts_flush := c\<rparr>" by (simp add: k2_def)
    then show ?thesis by (metis zero_neq_one)
  next
    case False
    then have "k2 = k\<lparr>current := c, updated := updated k, ts_flush := ts_flush k\<rparr>"
      by (simp add: k2_def)
    then show ?thesis using False by blast
  qed
  then obtain u2 t2 where k2: "k2 = k\<lparr>current := c, updated := u2, ts_flush := t2\<rparr>" and u2: "u2 \<noteq> 0"
    by blast
  have "\<exists>t. k3 = k\<lparr>current := c, updated := u2, ts_flush := t\<rparr>"
    by (cases far) (simp_all add: k3_def k2, blast+)
  then obtain t3 where k3: "k3 = k\<lparr>current := c, updated := u2, ts_flush := t3\<rparr>" by blast
  have "\<exists>t. k4 = k\<lparr>current := c, updated := u2, ts_flush := t\<rparr>"
    by (simp add: k4_def k3, blast)
  then obtain t4 where k4: "k4 = k\<lparr>current := c, updated := u2, ts_flush := t4\<rparr>" by blast
  have "\<exists>t. k5 = k\<lparr>current := c, updated := u2, ts_flush := t\<rparr>"
    by (cases "itimediff dm (current k4) (ts_flush k4) \<ge> 0") (simp_all add: k5_def k4, blast+)
  then obtain t5 where k5: "k5 = k\<lparr>current := c, updated := u2, ts_flush := t5\<rparr>" by blast
  show ?thesis
  proof (cases "slap \<ge> 0")
    case True
    show ?thesis
      by (rule that [of k5]) (simp_all add: k5 u2 u True)
  next
    case False
    show ?thesis
      by (rule that [of k3]) (simp_all add: k3 u2 u False)
  qed
qed

lemma erase_egress_update [simp]: "erase_egress (fst (update dm k c)) = erase_egress k"
  by (rule update_result [of k c dm]) auto

text \<open>The members that the send decision of \<open>flush\<close> may change are reset by \<open>erase_retransmit\<close>.\<close>

definition erase_retransmit :: "kcp \<Rightarrow> kcp" where
  "erase_retransmit k = k\<lparr>kcp_xmit := 0, state := 0\<rparr>"

lemma erase_retransmit_upd [simp]:
  "erase_retransmit (k\<lparr>kcp_xmit := x0\<rparr>) = erase_retransmit k"
  "erase_retransmit (k\<lparr>state := x1\<rparr>) = erase_retransmit k"
  by (simp_all add: erase_retransmit_def)

lemma erase_retransmit_fields:
  assumes e: "erase_retransmit k' = erase_retransmit k"
  shows "kcp_conv k' = kcp_conv k"
    and "mtu k' = mtu k"
    and "mss k' = mss k"
    and "snd_una k' = snd_una k"
    and "snd_nxt k' = snd_nxt k"
    and "rcv_nxt k' = rcv_nxt k"
    and "ts_recent k' = ts_recent k"
    and "ts_lastack k' = ts_lastack k"
    and "ssthresh k' = ssthresh k"
    and "rx_rttval k' = rx_rttval k"
    and "rx_srtt k' = rx_srtt k"
    and "rx_rto k' = rx_rto k"
    and "rx_minrto k' = rx_minrto k"
    and "snd_wnd k' = snd_wnd k"
    and "rcv_wnd k' = rcv_wnd k"
    and "rmt_wnd k' = rmt_wnd k"
    and "cwnd k' = cwnd k"
    and "probe k' = probe k"
    and "current k' = current k"
    and "interval k' = interval k"
    and "ts_flush k' = ts_flush k"
    and "nodelay k' = nodelay k"
    and "updated k' = updated k"
    and "ts_probe k' = ts_probe k"
    and "probe_wait k' = probe_wait k"
    and "dead_link k' = dead_link k"
    and "incr k' = incr k"
    and "snd_queue k' = snd_queue k"
    and "rcv_queue k' = rcv_queue k"
    and "snd_buf k' = snd_buf k"
    and "rcv_buf k' = rcv_buf k"
    and "acklist k' = acklist k"
    and "ackblock k' = ackblock k"
    and "fastresend k' = fastresend k"
    and "fastlimit k' = fastlimit k"
    and "nocwnd k' = nocwnd k"
    and "stream k' = stream k"
    and "logmask k' = logmask k"
proof -
  note a = arg_cong [OF e]
  show "kcp_conv k' = kcp_conv k" using a [of kcp_conv] by (simp add: erase_retransmit_def)
  show "mtu k' = mtu k" using a [of mtu] by (simp add: erase_retransmit_def)
  show "mss k' = mss k" using a [of mss] by (simp add: erase_retransmit_def)
  show "snd_una k' = snd_una k" using a [of snd_una] by (simp add: erase_retransmit_def)
  show "snd_nxt k' = snd_nxt k" using a [of snd_nxt] by (simp add: erase_retransmit_def)
  show "rcv_nxt k' = rcv_nxt k" using a [of rcv_nxt] by (simp add: erase_retransmit_def)
  show "ts_recent k' = ts_recent k" using a [of ts_recent] by (simp add: erase_retransmit_def)
  show "ts_lastack k' = ts_lastack k" using a [of ts_lastack] by (simp add: erase_retransmit_def)
  show "ssthresh k' = ssthresh k" using a [of ssthresh] by (simp add: erase_retransmit_def)
  show "rx_rttval k' = rx_rttval k" using a [of rx_rttval] by (simp add: erase_retransmit_def)
  show "rx_srtt k' = rx_srtt k" using a [of rx_srtt] by (simp add: erase_retransmit_def)
  show "rx_rto k' = rx_rto k" using a [of rx_rto] by (simp add: erase_retransmit_def)
  show "rx_minrto k' = rx_minrto k" using a [of rx_minrto] by (simp add: erase_retransmit_def)
  show "snd_wnd k' = snd_wnd k" using a [of snd_wnd] by (simp add: erase_retransmit_def)
  show "rcv_wnd k' = rcv_wnd k" using a [of rcv_wnd] by (simp add: erase_retransmit_def)
  show "rmt_wnd k' = rmt_wnd k" using a [of rmt_wnd] by (simp add: erase_retransmit_def)
  show "cwnd k' = cwnd k" using a [of cwnd] by (simp add: erase_retransmit_def)
  show "probe k' = probe k" using a [of probe] by (simp add: erase_retransmit_def)
  show "current k' = current k" using a [of current] by (simp add: erase_retransmit_def)
  show "interval k' = interval k" using a [of interval] by (simp add: erase_retransmit_def)
  show "ts_flush k' = ts_flush k" using a [of ts_flush] by (simp add: erase_retransmit_def)
  show "nodelay k' = nodelay k" using a [of nodelay] by (simp add: erase_retransmit_def)
  show "updated k' = updated k" using a [of updated] by (simp add: erase_retransmit_def)
  show "ts_probe k' = ts_probe k" using a [of ts_probe] by (simp add: erase_retransmit_def)
  show "probe_wait k' = probe_wait k" using a [of probe_wait] by (simp add: erase_retransmit_def)
  show "dead_link k' = dead_link k" using a [of dead_link] by (simp add: erase_retransmit_def)
  show "incr k' = incr k" using a [of incr] by (simp add: erase_retransmit_def)
  show "snd_queue k' = snd_queue k" using a [of snd_queue] by (simp add: erase_retransmit_def)
  show "rcv_queue k' = rcv_queue k" using a [of rcv_queue] by (simp add: erase_retransmit_def)
  show "snd_buf k' = snd_buf k" using a [of snd_buf] by (simp add: erase_retransmit_def)
  show "rcv_buf k' = rcv_buf k" using a [of rcv_buf] by (simp add: erase_retransmit_def)
  show "acklist k' = acklist k" using a [of acklist] by (simp add: erase_retransmit_def)
  show "ackblock k' = ackblock k" using a [of ackblock] by (simp add: erase_retransmit_def)
  show "fastresend k' = fastresend k" using a [of fastresend] by (simp add: erase_retransmit_def)
  show "fastlimit k' = fastlimit k" using a [of fastlimit] by (simp add: erase_retransmit_def)
  show "nocwnd k' = nocwnd k" using a [of nocwnd] by (simp add: erase_retransmit_def)
  show "stream k' = stream k" using a [of stream] by (simp add: erase_retransmit_def)
  show "logmask k' = logmask k" using a [of logmask] by (simp add: erase_retransmit_def)
qed


lemma erase_retransmit_flush_segment:
  "flush_segment dm w resent rtomin seg (k, st, ch, lost) = (seg', (k', st', ch', lost'))
   \<Longrightarrow> erase_retransmit k' = erase_retransmit k"
  by (auto simp: flush_segment_def Let_def split: if_splits)

lemma erase_retransmit_flush_data:
  "flush_data dm w resent rtomin segs (k, st, ch, lost) = (segs', (k', st', ch', lost'))
   \<Longrightarrow> erase_retransmit k' = erase_retransmit k"
proof (induction segs arbitrary: k st ch lost segs')
  case Nil
  then show ?case by simp
next
  case (Cons seg segs)
  obtain s1 k1 st1 ch1 lost1 where
    a: "flush_segment dm w resent rtomin seg (k, st, ch, lost) = (s1, (k1, st1, ch1, lost1))"
    by (metis prod_cases5)
  obtain segs2 where
    b: "flush_data dm w resent rtomin segs (k1, st1, ch1, lost1) = (segs2, (k', st', ch', lost'))"
    using Cons.prems a by (auto split: prod.splits)
  show ?case using Cons.IH [OF b] erase_retransmit_flush_segment [OF a] by simp
qed

lemma probe_window_fields:
  "ssthresh (probe_window dm k) = ssthresh k"
  "mss (probe_window dm k) = mss k"
  "mtu (probe_window dm k) = mtu k"
  "rmt_wnd (probe_window dm k) = rmt_wnd k"
  "snd_una (probe_window dm k) = snd_una k"
  "current (probe_window dm k) = current k"
  "updated (probe_window dm k) = updated k"
  by (simp_all add: probe_window_def Let_def)

subsection \<open>The congestion window\<close>











subsection \<open>Properties kept by every operation\<close>


lemma input_step_shape:
  assumes "input_step dm k p sz loc = Inr (k', p', sz', loc')"
  obtains cnv c f w t s u len payload where
    "k' = fst (input_segment dm k cnv c f w t s u len payload loc)"
  using assms by (auto simp: input_step_eq split: if_splits)

lemma input_loop_preserves:
  "(\<And>k cnv c f w t s u len payload loc.
       Q k \<Longrightarrow> Q (fst (input_segment dm k cnv c f w t s u len payload loc))) \<Longrightarrow>
   Q k \<Longrightarrow> (case input_loop dm k p sz loc of Inl r \<Rightarrow> Q (snd r) | Inr r \<Rightarrow> Q (fst r))"
proof (induction dm k p sz loc rule: input_loop.induct)
  case (1 dm k p sz loc)
  note seg = 1(2) and q = 1(3)
  show ?case
  proof (cases "sz < 24")
    case True
    then show ?thesis using q by (subst input_loop.simps) simp
  next
    case False
    show ?thesis
    proof (cases "input_step dm k p sz loc")
      case (Inl r)
      then have "snd r = k" using erase_ingress_input_step(1) [of dm k p sz loc "fst r" "snd r"] by simp
      then show ?thesis using False Inl q by (subst input_loop.simps) simp
    next
      case (Inr x)
      obtain k' p' sz' loc' where x: "x = (k', p', sz', loc')" by (cases x) auto
      have q': "Q k'"
      proof (rule input_step_shape [OF Inr [unfolded x]], goal_cases)
        case (1 cnv c f w t s u len payload)
        then show ?case using seg [OF q] by simp
      qed
      have "case input_loop dm k' p' sz' loc' of Inl r \<Rightarrow> Q (snd r) | Inr r \<Rightarrow> Q (fst r)"
        using 1(1) [OF False Inr x [symmetric] refl refl seg q'] by simp
      then show ?thesis
        using False Inr x by (subst input_loop.simps) simp
    qed
  qed
qed

lemma input_preserves:
  assumes "Q k"
    and seg: "\<And>k cnv c f w t s u len payload loc.
                  Q k \<Longrightarrow> Q (fst (input_segment dm k cnv c f w t s u len payload loc))"
    and fast: "\<And>k s t. Q k \<Longrightarrow> Q (parse_fast_ack dm k s t)"
    and grow: "\<And>k. Q k \<Longrightarrow> Q (grow_cwnd k)"
  shows "Q (snd (input dm k dat sz))"
proof (cases dat)
  case None
  then show ?thesis using assms(1) by (simp add: input_def)
next
  case (Some p)
  show ?thesis
    using input_loop_preserves [of Q dm k p sz "(False, 0, 0)", OF seg assms(1)] Some assms(1)
    by (auto simp: input_def Let_def fast grow split: sum.splits prod.splits)
qed

lemma input_segment_result:
  fixes dm k cnv c f w t s u len payload loc
  defines "k1 \<equiv> shrink_buffer (parse_una dm (k\<lparr>rmt_wnd := ucast w\<rparr>) u)"
  defines "r \<equiv> fst (input_segment dm k cnv c f w t s u len payload loc)"
  shows "r = shrink_buffer (parse_ack dm k1 s)
         \<or> r = shrink_buffer (parse_ack dm
                  (update_ack dm k1 (word_of_int (itimediff dm (current k1) t))) s)
         \<or> r = k1 \<or> r = k1\<lparr>acklist := acklist k1 @ [(s, t)]\<rparr>
         \<or> r = k1\<lparr>probe := probe k1 OR IKCP_ASK_TELL\<rparr>
         \<or> (\<exists>seg. r = parse_data dm (k1\<lparr>acklist := acklist k1 @ [(s, t)]\<rparr>) seg)"
proof -
  consider (ack) "ucast c = IKCP_CMD_ACK"
    | (push) "ucast c \<noteq> IKCP_CMD_ACK" "ucast c = IKCP_CMD_PUSH"
    | (wask) "ucast c \<noteq> IKCP_CMD_ACK" "ucast c \<noteq> IKCP_CMD_PUSH" "ucast c = IKCP_CMD_WASK"
    | (other) "ucast c \<noteq> IKCP_CMD_ACK" "ucast c \<noteq> IKCP_CMD_PUSH" "ucast c \<noteq> IKCP_CMD_WASK"
    by blast
  then show ?thesis
  proof cases
    case ack
    obtain flag maxack latest where loc: "loc = (flag, maxack, latest)" by (cases loc) auto
    have "r = shrink_buffer (parse_ack dm
              (if itimediff dm (current k1) t \<ge> 0
               then update_ack dm k1 (word_of_int (itimediff dm (current k1) t)) else k1) s)"
      unfolding r_def input_segment_def Let_def k1_def [symmetric] using ack
      by (simp add: loc)
    then show ?thesis by (cases "itimediff dm (current k1) t \<ge> 0") simp_all
  next
    case push
    define k2 where "k2 = k1\<lparr>acklist := acklist k1 @ [(s, t)]\<rparr>"
    have "r = k1 \<or> r = k2 \<or> (\<exists>seg. r = parse_data dm k2 seg)"
    proof (cases "itimediff dm s (rcv_nxt k1 + rcv_wnd k1) < 0")
      case False
      then have "r = k1"
        unfolding r_def input_segment_def Let_def k1_def [symmetric] using push by simp
      then show ?thesis by simp
    next
      case True
      show ?thesis
      proof (cases "itimediff dm s (rcv_nxt k1) \<ge> 0")
        case False
        then have "r = k2"
          unfolding r_def input_segment_def Let_def k1_def [symmetric] k2_def
          using push True by simp
        then show ?thesis by simp
      next
        case t: True
        have "\<exists>seg. r = parse_data dm k2 seg"
          unfolding r_def input_segment_def Let_def k1_def [symmetric] k2_def
          using push True t by simp blast
        then show ?thesis by simp
      qed
    qed
    then show ?thesis unfolding k2_def by blast
  next
    case wask
    then have "r = k1\<lparr>probe := probe k1 OR IKCP_ASK_TELL\<rparr>"
      unfolding r_def input_segment_def Let_def k1_def [symmetric] by simp
    then show ?thesis by simp
  next
    case other
    then have "r = k1"
      unfolding r_def input_segment_def Let_def k1_def [symmetric] by simp
    then show ?thesis by simp
  qed
qed

lemma input_segment_preserves:
  assumes "Q k"
    and "\<And>k (w::u16). Q k \<Longrightarrow> Q (k\<lparr>rmt_wnd := ucast w\<rparr>)"
    and "\<And>k u. Q k \<Longrightarrow> Q (parse_una dm k u)"
    and "\<And>k. Q k \<Longrightarrow> Q (shrink_buffer k)"
    and "\<And>k r. Q k \<Longrightarrow> Q (update_ack dm k r)"
    and "\<And>k s. Q k \<Longrightarrow> Q (parse_ack dm k s)"
    and "\<And>k a. Q k \<Longrightarrow> Q (k\<lparr>acklist := a\<rparr>)"
    and "\<And>k seg. Q k \<Longrightarrow> Q (parse_data dm k seg)"
    and "\<And>k. Q k \<Longrightarrow> Q (k\<lparr>probe := probe k OR IKCP_ASK_TELL\<rparr>)"
  shows "Q (fst (input_segment dm k cnv c f w t s u len payload loc))"
proof -
  define k1 where "k1 = shrink_buffer (parse_una dm (k\<lparr>rmt_wnd := ucast w\<rparr>) u)"
  have q1: "Q k1" unfolding k1_def by (intro assms)
  show ?thesis
    using input_segment_result [of dm k cnv c f w t s u len payload loc, folded k1_def] q1
    by (auto intro!: assms)
qed


text \<open>The members that the configuration calls may change are reset by \<open>erase_config\<close>.\<close>

definition erase_config :: "kcp \<Rightarrow> kcp" where
  "erase_config k = k\<lparr>mtu := 0, mss := 0, interval := 0, nodelay := 0, rx_minrto := 0, fastresend := 0, nocwnd := 0, snd_wnd := 0, rcv_wnd := 0, stream := 0, logmask := 0\<rparr>"

lemma erase_config_upd [simp]:
  "erase_config (k\<lparr>mtu := x0\<rparr>) = erase_config k"
  "erase_config (k\<lparr>mss := x1\<rparr>) = erase_config k"
  "erase_config (k\<lparr>interval := x2\<rparr>) = erase_config k"
  "erase_config (k\<lparr>nodelay := x3\<rparr>) = erase_config k"
  "erase_config (k\<lparr>rx_minrto := x4\<rparr>) = erase_config k"
  "erase_config (k\<lparr>fastresend := x5\<rparr>) = erase_config k"
  "erase_config (k\<lparr>nocwnd := x6\<rparr>) = erase_config k"
  "erase_config (k\<lparr>snd_wnd := x7\<rparr>) = erase_config k"
  "erase_config (k\<lparr>rcv_wnd := x8\<rparr>) = erase_config k"
  "erase_config (k\<lparr>stream := x9\<rparr>) = erase_config k"
  "erase_config (k\<lparr>logmask := x10\<rparr>) = erase_config k"
  by (simp_all add: erase_config_def)

lemma erase_config_fields:
  assumes e: "erase_config k' = erase_config k"
  shows "kcp_conv k' = kcp_conv k"
    and "state k' = state k"
    and "snd_una k' = snd_una k"
    and "snd_nxt k' = snd_nxt k"
    and "rcv_nxt k' = rcv_nxt k"
    and "ts_recent k' = ts_recent k"
    and "ts_lastack k' = ts_lastack k"
    and "ssthresh k' = ssthresh k"
    and "rx_rttval k' = rx_rttval k"
    and "rx_srtt k' = rx_srtt k"
    and "rx_rto k' = rx_rto k"
    and "rmt_wnd k' = rmt_wnd k"
    and "cwnd k' = cwnd k"
    and "probe k' = probe k"
    and "current k' = current k"
    and "ts_flush k' = ts_flush k"
    and "kcp_xmit k' = kcp_xmit k"
    and "updated k' = updated k"
    and "ts_probe k' = ts_probe k"
    and "probe_wait k' = probe_wait k"
    and "dead_link k' = dead_link k"
    and "incr k' = incr k"
    and "snd_queue k' = snd_queue k"
    and "rcv_queue k' = rcv_queue k"
    and "snd_buf k' = snd_buf k"
    and "rcv_buf k' = rcv_buf k"
    and "acklist k' = acklist k"
    and "ackblock k' = ackblock k"
    and "fastlimit k' = fastlimit k"
proof -
  note a = arg_cong [OF e]
  show "kcp_conv k' = kcp_conv k" using a [of kcp_conv] by (simp add: erase_config_def)
  show "state k' = state k" using a [of state] by (simp add: erase_config_def)
  show "snd_una k' = snd_una k" using a [of snd_una] by (simp add: erase_config_def)
  show "snd_nxt k' = snd_nxt k" using a [of snd_nxt] by (simp add: erase_config_def)
  show "rcv_nxt k' = rcv_nxt k" using a [of rcv_nxt] by (simp add: erase_config_def)
  show "ts_recent k' = ts_recent k" using a [of ts_recent] by (simp add: erase_config_def)
  show "ts_lastack k' = ts_lastack k" using a [of ts_lastack] by (simp add: erase_config_def)
  show "ssthresh k' = ssthresh k" using a [of ssthresh] by (simp add: erase_config_def)
  show "rx_rttval k' = rx_rttval k" using a [of rx_rttval] by (simp add: erase_config_def)
  show "rx_srtt k' = rx_srtt k" using a [of rx_srtt] by (simp add: erase_config_def)
  show "rx_rto k' = rx_rto k" using a [of rx_rto] by (simp add: erase_config_def)
  show "rmt_wnd k' = rmt_wnd k" using a [of rmt_wnd] by (simp add: erase_config_def)
  show "cwnd k' = cwnd k" using a [of cwnd] by (simp add: erase_config_def)
  show "probe k' = probe k" using a [of probe] by (simp add: erase_config_def)
  show "current k' = current k" using a [of current] by (simp add: erase_config_def)
  show "ts_flush k' = ts_flush k" using a [of ts_flush] by (simp add: erase_config_def)
  show "kcp_xmit k' = kcp_xmit k" using a [of kcp_xmit] by (simp add: erase_config_def)
  show "updated k' = updated k" using a [of updated] by (simp add: erase_config_def)
  show "ts_probe k' = ts_probe k" using a [of ts_probe] by (simp add: erase_config_def)
  show "probe_wait k' = probe_wait k" using a [of probe_wait] by (simp add: erase_config_def)
  show "dead_link k' = dead_link k" using a [of dead_link] by (simp add: erase_config_def)
  show "incr k' = incr k" using a [of incr] by (simp add: erase_config_def)
  show "snd_queue k' = snd_queue k" using a [of snd_queue] by (simp add: erase_config_def)
  show "rcv_queue k' = rcv_queue k" using a [of rcv_queue] by (simp add: erase_config_def)
  show "snd_buf k' = snd_buf k" using a [of snd_buf] by (simp add: erase_config_def)
  show "rcv_buf k' = rcv_buf k" using a [of rcv_buf] by (simp add: erase_config_def)
  show "acklist k' = acklist k" using a [of acklist] by (simp add: erase_config_def)
  show "ackblock k' = ackblock k" using a [of ackblock] by (simp add: erase_config_def)
  show "fastlimit k' = fastlimit k" using a [of fastlimit] by (simp add: erase_config_def)
qed

lemma erase_config_ops [simp]:
  "erase_config (snd (set_mtu k m)) = erase_config k"
  "erase_config (snd (get_interval k i)) = erase_config k"
  "erase_config (snd (no_delay k nd i resend nc)) = erase_config k"
  "erase_config (set_window_size k sndwnd rcvwnd) = erase_config k"
  "erase_config (set_stream_mode k enable) = erase_config k"
  "erase_config (rx_min_rto k v) = erase_config k"
  "erase_config (log_mask k v) = erase_config k"
  by (simp_all add: set_mtu_def get_interval_def no_delay_def set_window_size_def
        set_stream_mode_def rx_min_rto_def log_mask_def Let_def)

lemma receive_vec_as_receive:
  "snd (snd (receive_vec k buffer)) = k
   \<or> (\<exists>b l. snd (snd (receive_vec k buffer)) = snd (snd (receive k b l)))"
proof (cases "sint (PeekSize k) < 0")
  case True
  then show ?thesis by (simp add: receive_vec_def)
next
  case False
  define b1 where "b1 = (if length buffer < unat (PeekSize k)
                       then buffer @ replicate (unat (PeekSize k) - length buffer) 0 else buffer)"
  have "snd (snd (receive_vec k buffer)) = snd (snd (receive k (Some b1) (word_of_nat (length b1))))"
    using False unfolding receive_vec_def Let_def b1_def by (simp split: prod.splits)
  then show ?thesis by blast
qed


subsection \<open>The flush that update runs\<close>





subsection \<open>The floor of the congestion window\<close>









lemma run_reachable:
  "reachable_by dm (\<lambda>k x. True) k \<Longrightarrow> run dm k xs = Some k' \<Longrightarrow>
   reachable_by dm (\<lambda>k x. True) k'"
proof (induction xs arbitrary: k)
  case Nil
  then show ?case by simp
next
  case (Cons x xs)
  then obtain k1 where s: "step dm k x = Some k1" and r: "run dm k1 xs = Some k'"
    by (auto split: option.splits)
  have "reachable_by dm (\<lambda>k x. True) k1"
    by (rule reachable_by.step [OF Cons.prems(1) _ s]) simp
  then show ?case using Cons.IH r by blast
qed









subsection \<open>Window probing\<close>






lemma fast_ack_loop_cmd: "map cmd (fast_ack_loop dm s xs) = map cmd xs"
  by (induction xs) auto


lemma list_all_cmd: "list_all (\<lambda>s. cmd s = c) xs = (set (map cmd xs) \<subseteq> {c})"
  by (induction xs) auto

lemma parse_data_fields:
  "probe (parse_data dm k seg) = probe k"
  "probe_wait (parse_data dm k seg) = probe_wait k"
  "snd_buf (parse_data dm k seg) = snd_buf k"
  "snd_una (parse_data dm k seg) = snd_una k"
  "snd_nxt (parse_data dm k seg) = snd_nxt k"
  "rmt_wnd (parse_data dm k seg) = rmt_wnd k"
  "rcv_wnd (parse_data dm k seg) = rcv_wnd k"
  by (simp_all add: parse_data_def move_available_def split: prod.splits)














lemma flush_cwnd_probe:
  "probe (flush_cwnd k cw resent change lost) = probe k"
  "probe_wait (flush_cwnd k cw resent change lost) = probe_wait k"
  "ts_probe (flush_cwnd k cw resent change lost) = ts_probe k"
  "snd_buf (flush_cwnd k cw resent change lost) = snd_buf k"
  by (simp_all add: flush_cwnd_def Let_def)
















subsection \<open>The order of the buffers\<close>

lemma sint_diff_small:
  assumes "unat x < 2147483648" and "unat y < 2147483648"
  shows "sint (x - y :: u32) = int (unat x) - int (unat y)"
proof -
  have ux: "uint x < 2147483648" "uint y < 2147483648"
    using assms unfolding unat_eq_nat_uint by linarith+
  have x: "sint x = uint x" and y: "sint y = uint y"
    using ux by (simp_all add: uint_lt_sint_i32)
  have b: "- 2147483648 \<le> uint x - uint y" "uint x - uint y < 2147483648"
    using ux uint_ge_0 [of x] uint_ge_0 [of y] by linarith+
  have "sint (x - y) = sint x - sint y"
    by (rule sint_sub_i32) (simp_all only: x y b)
  then show ?thesis by (simp add: x y)
qed

lemma unat_rebase:
  assumes "unat (c - b) \<le> unat (a - b)"
  shows "unat (a - c :: u32) = unat (a - b) - unat (c - b)"
proof -
  have "a - c = (a - b) - (c - b)" by simp
  moreover have "c - b \<le> a - b" using assms by (simp add: word_le_nat_alt)
  ultimately show ?thesis using unat_sub [of "c - b" "a - b"] by simp
qed

lemma sint_diff_base:
  assumes "unat (a - b) < 2147483648" and "unat (c - b) < 2147483648"
  shows "sint (a - c :: u32) = int (unat (a - b)) - int (unat (c - b))"
  using sint_diff_small [OF assms] by simp

text \<open>
  \<open>in_order base n sns\<close>: the sequence numbers \<open>sns\<close>, as distances from \<open>base\<close>, are
  strictly increasing and below \<open>n\<close>.
\<close>

definition in_order :: "u32 \<Rightarrow> nat \<Rightarrow> u32 list \<Rightarrow> bool" where
  "in_order base n sns =
     (sorted_wrt (<) (map (\<lambda>x. unat (x - base)) sns) \<and> list_all (\<lambda>x. unat (x - base) < n) sns)"

lemma in_order_Nil [simp]: "in_order base n []"
  by (simp add: in_order_def)

lemma in_order_Cons:
  "in_order base n (x # xs) =
     (unat (x - base) < n \<and> list_all (\<lambda>y. unat (x - base) < unat (y - base)) xs
      \<and> in_order base n xs)"
  by (auto simp: in_order_def list_all_iff)

lemma in_order_append:
  "in_order base n (xs @ ys) =
     (in_order base n xs \<and> in_order base n ys
      \<and> list_all (\<lambda>x. list_all (\<lambda>y. unat (x - base) < unat (y - base)) ys) xs)"
  by (auto simp: in_order_def sorted_wrt_append list_all_iff)

lemma in_order_mono: "in_order base n sns \<Longrightarrow> n \<le> m \<Longrightarrow> in_order base m sns"
  by (auto simp: in_order_def list_all_iff)

lemma in_order_rebase:
  assumes "in_order b n sns" and "list_all (\<lambda>x. unat (c - b) \<le> unat (x - b)) sns"
  shows "in_order c (n - unat (c - b)) sns"
proof -
  have r: "unat (x - c) = unat (x - b) - unat (c - b)" if "x \<in> set sns" for x
    using assms(2) that by (intro unat_rebase) (simp add: list_all_iff)
  have m: "map (\<lambda>x. unat (x - c)) sns = map (\<lambda>x. unat (x - b) - unat (c - b)) sns"
    using r by simp
  have s: "sorted_wrt (<) (map (\<lambda>x. unat (x - b) - unat (c - b)) sns)"
    using assms unfolding in_order_def sorted_wrt_map list_all_iff
    by (auto elim!: sorted_wrt_mono_rel [rotated])
  have l: "list_all (\<lambda>x. unat (x - c) < n - unat (c - b)) sns"
    using assms r unfolding in_order_def list_all_iff by (auto intro!: diff_less_mono)
  show ?thesis unfolding in_order_def m using s l by blast
qed

lemma in_order_signed:
  assumes "in_order base n sns" and "n \<le> 2147483648"
  shows "sorted_wrt (\<lambda>a b. 0 < sint (b - a)) sns" and "distinct sns"
proof -
  have d: "sint (y - x) = int (unat (y - base)) - int (unat (x - base))"
    if "x \<in> set sns" "y \<in> set sns" for x y
    using assms that by (intro sint_diff_base) (auto simp: in_order_def list_all_iff)
  have s: "sorted_wrt (\<lambda>a b. unat (a - base) < unat (b - base)) sns"
    using assms(1) by (simp add: in_order_def sorted_wrt_map)
  show "sorted_wrt (\<lambda>a b. 0 < sint (b - a)) sns"
  proof (rule sorted_wrt_mono_rel [OF _ s])
    fix x y assume "x \<in> set sns" "y \<in> set sns" "unat (x - base) < unat (y - base)"
    then show "0 < sint (y - x)" using d [of x y] by linarith
  qed
  have "sorted_wrt (<) (map (\<lambda>x. unat (x - base)) sns)"
    using assms(1) unfolding in_order_def by blast
  then have "distinct (map (\<lambda>x. unat (x - base)) sns)"
    using strict_sorted_iff by blast
  then show "distinct sns" by (simp add: distinct_map)
qed

text \<open>
  What holds of the buffers in every state the operations lead to. \<open>snd_ok\<close>:
  \<open>rmt_wnd\<close> and the number of sequence numbers in flight are at most 65535, and the
  segments of \<open>snd_buf\<close> are in order between \<open>snd_una\<close> and \<open>snd_nxt\<close>. \<open>rcv_ok\<close>:
  \<open>rcv_wnd\<close> is below $2^{31}$ and the segments of \<open>rcv_buf\<close> are in order from
  \<open>rcv_nxt\<close> on, less than $2^{31}$ ahead of it; \<open>tight\<close> says that they are below
  \<open>rcv_nxt + rcv_wnd\<close>, which holds as long as no \<open>set_window_size\<close> lowers \<open>rcv_wnd\<close>.
  Where \<open>long\<close> has 64 bits both buffers stay empty, since \<open>_itimediff\<close> is never
  negative there.
\<close>

definition snd_ok :: "kcp \<Rightarrow> bool" where
  "snd_ok k =
     (unat (rmt_wnd k) \<le> 65535 \<and> unat (snd_nxt k - snd_una k) \<le> 65535
      \<and> in_order (snd_una k) (unat (snd_nxt k - snd_una k)) (map sn (snd_buf k)))"

definition snd_front :: "kcp \<Rightarrow> bool" where
  "snd_front k = (case snd_buf k of [] \<Rightarrow> snd_una k = snd_nxt k | s # _ \<Rightarrow> sn s = snd_una k)"

definition rcv_bound :: "bool \<Rightarrow> u32 \<Rightarrow> nat" where
  "rcv_bound tight w = (if tight then unat w else 2147483648)"

definition rcv_ok :: "bool \<Rightarrow> kcp \<Rightarrow> bool" where
  "rcv_ok tight k =
     (unat (rcv_wnd k) < 2147483648
      \<and> in_order (rcv_nxt k) (rcv_bound tight (rcv_wnd k)) (map sn (rcv_buf k)))"

definition idle64 :: "data_model \<Rightarrow> kcp \<Rightarrow> bool" where
  "idle64 dm k = (dm = LONG32 \<or> (snd_buf k = [] \<and> rcv_buf k = []))"

definition buf_ok :: "bool \<Rightarrow> data_model \<Rightarrow> kcp \<Rightarrow> bool" where
  "buf_ok tight dm k = (snd_ok k \<and> rcv_ok tight k \<and> idle64 dm k)"

lemma buf_ok_cong:
  assumes "rmt_wnd k' = rmt_wnd k" "snd_nxt k' = snd_nxt k" "snd_una k' = snd_una k"
    "map sn (snd_buf k') = map sn (snd_buf k)" "rcv_wnd k' = rcv_wnd k" "rcv_nxt k' = rcv_nxt k"
    "rcv_buf k' = rcv_buf k"
  shows "buf_ok tight dm k' = buf_ok tight dm k"
proof -
  have "(snd_buf k' = []) = (snd_buf k = [])" using assms(4) by (metis map_is_Nil_conv)
  then show ?thesis using assms by (simp add: buf_ok_def snd_ok_def rcv_ok_def idle64_def)
qed

lemma snd_front_cong:
  assumes "snd_nxt k' = snd_nxt k" "snd_una k' = snd_una k"
    "map sn (snd_buf k') = map sn (snd_buf k)"
  shows "snd_front k' = snd_front k"
  using assms by (cases "snd_buf k"; cases "snd_buf k'") (simp_all add: snd_front_def)

subsubsection \<open>The send buffer\<close>

lemma una_loop_suffix: "\<exists>ys. xs = ys @ una_loop dm u xs"
proof (induction xs)
  case Nil
  then show ?case by simp
next
  case (Cons x xs)
  then obtain ys where "xs = ys @ una_loop dm u xs" by blast
  then have a: "x # xs = (x # ys) @ una_loop dm u xs" by simp
  show ?case
  proof (cases "itimediff dm u (sn x) > 0")
    case True
    then have "una_loop dm u (x # xs) = una_loop dm u xs" by simp
    then show ?thesis using a by metis
  next
    case False
    then have "x # xs = [] @ una_loop dm u (x # xs)" by simp
    then show ?thesis by blast
  qed
qed

lemma ack_loop_remove:
  "ack_loop dm s xs = xs \<or> (\<exists>ys x zs. xs = ys @ x # zs \<and> ack_loop dm s xs = ys @ zs)"
proof (induction xs)
  case Nil
  then show ?case by simp
next
  case (Cons a xs)
  show ?case
  proof (cases "s = sn a")
    case True
    then have "a # xs = [] @ a # xs \<and> ack_loop dm s (a # xs) = [] @ xs" by simp
    then show ?thesis by blast
  next
    case False
    show ?thesis
    proof (cases "itimediff dm s (sn a) < 0")
      case True
      then show ?thesis using False by simp
    next
      case n: False
      from Cons consider "ack_loop dm s xs = xs"
        | ys x zs where "xs = ys @ x # zs" "ack_loop dm s xs = ys @ zs" by blast
      then show ?thesis
      proof cases
        case 1
        then show ?thesis using False n by simp
      next
        case 2
        then have "a # xs = (a # ys) @ x # zs \<and> ack_loop dm s (a # xs) = (a # ys) @ zs"
          using False n by simp
        then show ?thesis by blast
      qed
    qed
  qed
qed

lemma fast_ack_loop_sn: "map sn (fast_ack_loop dm s xs) = map sn xs"
  by (induction xs) auto

lemma in_order_una_loop:
  "in_order b n (map sn xs) \<Longrightarrow> in_order b n (map sn (una_loop dm u xs))"
proof -
  obtain ys where y: "xs = ys @ una_loop dm u xs" using una_loop_suffix by blast
  assume "in_order b n (map sn xs)"
  then have "in_order b n (map sn ys @ map sn (una_loop dm u xs))"
    using y by (metis map_append)
  then show ?thesis by (simp add: in_order_append)
qed

lemma in_order_ack_loop:
  "in_order b n (map sn xs) \<Longrightarrow> in_order b n (map sn (ack_loop dm s xs))"
proof -
  assume a: "in_order b n (map sn xs)"
  from ack_loop_remove [of dm s xs] consider "ack_loop dm s xs = xs"
    | ys x zs where "xs = ys @ x # zs" "ack_loop dm s xs = ys @ zs" by blast
  then show ?thesis
  proof cases
    case 1
    then show ?thesis using a by simp
  next
    case 2
    then have "in_order b n (map sn ys @ sn x # map sn zs)" using a by simp
    then have "in_order b n (map sn ys @ map sn zs)"
      by (simp add: in_order_append in_order_Cons list_all_iff)
    then show ?thesis using 2 by simp
  qed
qed

lemma snd_ok_shrink_buffer: "snd_ok k \<Longrightarrow> snd_ok (shrink_buffer k)"
proof (cases "snd_buf k")
  case Nil
  then show "snd_ok k \<Longrightarrow> ?thesis" by (simp add: snd_ok_def shrink_buffer_def)
next
  case (Cons x xs)
  assume a: "snd_ok k"
  define b where "b = snd_una k"
  define n where "n = unat (snd_nxt k - b)"
  have o: "in_order b n (sn x # map sn xs)" and n: "n \<le> 65535"
    using a Cons by (simp_all add: snd_ok_def b_def n_def)
  have x: "unat (sn x - b) < n" using o by (simp add: in_order_Cons)
  have "list_all (\<lambda>y. unat (sn x - b) \<le> unat (y - b)) (sn x # map sn xs)"
    using o by (auto simp: in_order_Cons list_all_iff intro: less_imp_le)
  from in_order_rebase [OF o this]
  have r: "in_order (sn x) (n - unat (sn x - b)) (sn x # map sn xs)" .
  have "unat (snd_nxt k - sn x) = n - unat (sn x - b)"
    unfolding n_def using x by (intro unat_rebase) (simp add: n_def)
  then show ?thesis
    using r n a Cons by (simp add: snd_ok_def shrink_buffer_def)
qed

lemma snd_front_shrink_buffer: "snd_front (shrink_buffer k)"
  by (cases "snd_buf k") (simp_all add: snd_front_def shrink_buffer_def)

lemma shrink_buffer_fields:
  "rmt_wnd (shrink_buffer k) = rmt_wnd k"
  "snd_nxt (shrink_buffer k) = snd_nxt k"
  "snd_buf (shrink_buffer k) = snd_buf k"
  "rcv_wnd (shrink_buffer k) = rcv_wnd k"
  "rcv_nxt (shrink_buffer k) = rcv_nxt k"
  "rcv_buf (shrink_buffer k) = rcv_buf k"
  by (simp_all add: shrink_buffer_def split: list.splits)

lemma buf_ok_shrink_buffer: "buf_ok tight dm k \<Longrightarrow> buf_ok tight dm (shrink_buffer k)"
  using snd_ok_shrink_buffer [of k]
  by (simp add: buf_ok_def rcv_ok_def idle64_def shrink_buffer_fields)

lemma buf_ok_parse_una: "buf_ok tight dm k \<Longrightarrow> buf_ok tight dm (parse_una dm k u)"
proof -
  have "snd_buf k = [] \<Longrightarrow> una_loop dm u (snd_buf k) = []" by simp
  then show "buf_ok tight dm k \<Longrightarrow> ?thesis"
    by (auto simp: buf_ok_def snd_ok_def rcv_ok_def idle64_def parse_una_def in_order_una_loop)
qed

lemma buf_ok_parse_ack: "buf_ok tight dm k \<Longrightarrow> buf_ok tight dm (parse_ack dm k s)"
proof -
  have "snd_buf k = [] \<Longrightarrow> ack_loop dm s (snd_buf k) = []" by simp
  then show "buf_ok tight dm k \<Longrightarrow> ?thesis"
    by (auto simp: buf_ok_def snd_ok_def rcv_ok_def idle64_def parse_ack_def in_order_ack_loop)
qed

lemma buf_ok_parse_fast_ack: "buf_ok tight dm k \<Longrightarrow> buf_ok tight dm (parse_fast_ack dm k s t)"
  by (subst buf_ok_cong [of _ k]) (simp_all add: parse_fast_ack_def fast_ack_loop_sn)

lemma snd_front_parse_fast_ack: "snd_front k \<Longrightarrow> snd_front (parse_fast_ack dm k s t)"
  by (subst snd_front_cong [of _ k]) (simp_all add: parse_fast_ack_def fast_ack_loop_sn)

lemma buf_ok_update_ack: "buf_ok tight dm k \<Longrightarrow> buf_ok tight dm (update_ack dm k r)"
proof -
  have "erase_ingress (update_ack dm k r) = erase_ingress k" by simp
  note f = erase_ingress_fields [OF this]
  have g: "rmt_wnd (update_ack dm k r) = rmt_wnd k" "snd_buf (update_ack dm k r) = snd_buf k"
    "snd_una (update_ack dm k r) = snd_una k" "rcv_buf (update_ack dm k r) = rcv_buf k"
    "rcv_nxt (update_ack dm k r) = rcv_nxt k"
    by (simp_all add: update_ack_def Let_def)
  show "buf_ok tight dm k \<Longrightarrow> ?thesis"
    by (subst buf_ok_cong [of _ k]) (simp_all add: f g)
qed

lemma grow_cwnd_fields:
  "rmt_wnd (grow_cwnd k) = rmt_wnd k" "snd_buf (grow_cwnd k) = snd_buf k"
  "snd_una (grow_cwnd k) = snd_una k" "rcv_buf (grow_cwnd k) = rcv_buf k"
  "rcv_nxt (grow_cwnd k) = rcv_nxt k" "snd_nxt (grow_cwnd k) = snd_nxt k"
  "rcv_wnd (grow_cwnd k) = rcv_wnd k"
  by (simp_all add: grow_cwnd_def Let_def)

subsubsection \<open>The receive buffer\<close>

lemma move_loop_in_order:
  "move_loop buf q nxt w = (buf', q', nxt') \<Longrightarrow> in_order nxt n (map sn buf) \<Longrightarrow>
   in_order nxt' n (map sn buf')"
proof (induction buf arbitrary: q nxt)
  case Nil
  then show ?case by simp
next
  case (Cons seg buf)
  show ?case
  proof (cases "sn seg = nxt \<and> length q < unat w")
    case True
    then have m: "move_loop buf (q @ [seg]) (nxt + 1) w = (buf', q', nxt')"
      using Cons.prems(1) by simp
    have o: "in_order nxt n (map sn buf)"
      and l: "list_all (\<lambda>y. unat (sn seg - nxt) < unat (y - nxt)) (map sn buf)"
      using Cons.prems(2) by (simp_all add: in_order_Cons)
    have one: "unat (nxt + 1 - nxt) = 1" by simp
    have "list_all (\<lambda>x. unat (nxt + 1 - nxt) \<le> unat (x - nxt)) (map sn buf)"
      using l True unfolding one list_all_iff by auto
    from in_order_rebase [OF o this]
    have "in_order (nxt + 1) (n - 1) (map sn buf)" unfolding one .
    then have "in_order (nxt + 1) n (map sn buf)" by (rule in_order_mono) simp
    from Cons.IH [OF m this] show ?thesis .
  next
    case False
    then have "buf' = seg # buf" "nxt' = nxt" using Cons.prems(1) by auto
    then show ?thesis using Cons.prems(2) by simp
  qed
qed

lemma move_loop_empty: "move_loop [] q nxt w = ([], q, nxt)"
  by simp

lemma move_available_fields:
  "rmt_wnd (move_available k) = rmt_wnd k"
  "snd_nxt (move_available k) = snd_nxt k"
  "snd_una (move_available k) = snd_una k"
  "snd_buf (move_available k) = snd_buf k"
  "rcv_wnd (move_available k) = rcv_wnd k"
  "probe (move_available k) = probe k"
  by (simp_all add: move_available_def split: prod.splits)

lemma rcv_ok_move_available: "rcv_ok tight k \<Longrightarrow> rcv_ok tight (move_available k)"
proof -
  assume a: "rcv_ok tight k"
  obtain buf q nxt where m: "move_loop (rcv_buf k) (rcv_queue k) (rcv_nxt k) (rcv_wnd k) = (buf, q, nxt)"
    by (metis prod_cases3)
  have "in_order nxt (rcv_bound tight (rcv_wnd k)) (map sn buf)"
    using move_loop_in_order [OF m] a by (simp add: rcv_ok_def)
  then show ?thesis using a m by (simp add: rcv_ok_def move_available_def)
qed

lemma move_available_idle: "rcv_buf k = [] \<Longrightarrow> rcv_buf (move_available k) = []"
  by (simp add: move_available_def)

lemma buf_ok_move_available: "buf_ok tight dm k \<Longrightarrow> buf_ok tight dm (move_available k)"
  using rcv_ok_move_available [of tight k] move_available_idle [of k]
  by (auto simp: buf_ok_def snd_ok_def idle64_def move_available_fields)

lemma insert_scan_set: "set (insert_scan dm newseg segs) \<subseteq> insert newseg (set segs)"
  by (induction segs) auto

lemma insert_scan_in_order:
  assumes "n \<le> 2147483648" and "unat (sn newseg - b) < n"
  shows "in_order b n (map sn (rev segs)) \<Longrightarrow>
         in_order b n (map sn (rev (insert_scan LONG32 newseg segs)))"
proof (induction segs)
  case Nil
  then show ?case using assms(2) by (simp add: in_order_Cons)
next
  case (Cons seg segs)
  have o: "in_order b n (map sn (rev segs))" and s: "unat (sn seg - b) < n"
    and l: "list_all (\<lambda>x. unat (x - b) < unat (sn seg - b)) (map sn (rev segs))"
    using Cons.prems by (simp_all add: in_order_append in_order_Cons list_all_iff)
  have d: "sint (sn newseg - sn seg) = int (unat (sn newseg - b)) - int (unat (sn seg - b))"
    using assms s by (intro sint_diff_base) simp_all
  show ?case
  proof (cases "sn seg = sn newseg")
    case True
    then show ?thesis using Cons.prems by simp
  next
    case False
    then have ne: "unat (sn newseg - b) \<noteq> unat (sn seg - b)"
      by (simp add: word_unat_eq_iff [symmetric])
    show ?thesis
    proof (cases "0 < sint (sn newseg - sn seg)")
      case True
      then have g: "unat (sn seg - b) < unat (sn newseg - b)" using d by linarith
      have "list_all (\<lambda>x. unat (x - b) < unat (sn newseg - b)) (map sn (rev segs))"
        using l g unfolding list_all_iff by auto
      then show ?thesis
        using False True o s l g assms(2)
        by (simp add: in_order_append in_order_Cons list_all_iff)
    next
      case n: False
      then have g: "unat (sn newseg - b) < unat (sn seg - b)" using d ne by linarith
      have i: "in_order b n (map sn (rev (insert_scan LONG32 newseg segs)))"
        using Cons.IH [OF o] .
      have "\<forall>x \<in> set (insert_scan LONG32 newseg segs). unat (sn x - b) < unat (sn seg - b)"
        using insert_scan_set [of LONG32 newseg segs] l g unfolding list_all_iff by auto
      then show ?thesis
        using False n i s by (simp add: in_order_append in_order_Cons list_all_iff)
    qed
  qed
qed

lemma parse_data_unchanged_64: "parse_data LONG64 k seg = k"
  by (simp add: parse_data_def)

lemma rcv_ok_parse_data: "rcv_ok tight k \<Longrightarrow> rcv_ok tight (parse_data LONG32 k seg)"
proof (cases "sint (sn seg - (rcv_nxt k + rcv_wnd k)) \<ge> 0 \<or> sint (sn seg - rcv_nxt k) < 0")
  case True
  then show "rcv_ok tight k \<Longrightarrow> ?thesis" by (simp add: parse_data_def)
next
  case False
  assume a: "rcv_ok tight k"
  define m where "m = unat (rcv_wnd k)"
  define n where "n = rcv_bound tight (rcv_wnd k)"
  have m: "m < 2147483648" using a by (simp add: rcv_ok_def m_def)
  have n: "n \<le> 2147483648" "m \<le> n" using m by (simp_all add: rcv_bound_def m_def n_def)
  have p: "0 \<le> sint (sn seg - rcv_nxt k)" using False by simp
  have u: "unat (sn seg - rcv_nxt k) < 2147483648"
    using unat_sint_i32 [OF p] sint_bounds_i32(2) [of "sn seg - rcv_nxt k"] by linarith
  have e: "sn seg - (rcv_nxt k + rcv_wnd k) = (sn seg - rcv_nxt k) - rcv_wnd k" by simp
  have "sint (sn seg - (rcv_nxt k + rcv_wnd k))
        = int (unat (sn seg - rcv_nxt k)) - int m"
    unfolding e m_def by (rule sint_diff_small [OF u m [unfolded m_def]])
  then have lt: "unat (sn seg - rcv_nxt k) < n" using False n(2) by linarith
  have "in_order (rcv_nxt k) n (map sn (rev (rev (rcv_buf k))))"
    using a by (simp add: rcv_ok_def n_def)
  from insert_scan_in_order [OF n(1) lt this]
  have "in_order (rcv_nxt k) n (map sn (rev (insert_scan LONG32 seg (rev (rcv_buf k)))))"
    by simp
  then have "rcv_ok tight (k\<lparr>rcv_buf := rev (insert_scan LONG32 seg (rev (rcv_buf k)))\<rparr>)"
    using a by (simp add: rcv_ok_def n_def)
  from rcv_ok_move_available [OF this] show ?thesis
    using False by (simp add: parse_data_def)
qed

lemma buf_ok_parse_data: "buf_ok tight dm k \<Longrightarrow> buf_ok tight dm (parse_data dm k seg)"
proof (cases dm)
  case LONG32
  show "buf_ok tight dm k \<Longrightarrow> ?thesis"
    using rcv_ok_parse_data [of tight k seg]
    by (simp add: LONG32 buf_ok_def snd_ok_def idle64_def parse_data_fields)
next
  case LONG64
  then show "buf_ok tight dm k \<Longrightarrow> ?thesis" by (simp add: parse_data_unchanged_64)
qed

lemma snd_front_parse_data: "snd_front k \<Longrightarrow> snd_front (parse_data dm k seg)"
  by (subst snd_front_cong [of _ k]) (simp_all add: parse_data_fields)

subsubsection \<open>Ingress\<close>

lemma unat_ucast_u16: "unat (ucast (w :: u16) :: u32) \<le> 65535"
proof -
  have "is_up (ucast :: u16 \<Rightarrow> u32)" unfolding is_up.rep_eq by simp
  then have "uint (ucast w :: u32) = uint w" by (rule uint_up_ucast)
  moreover have "uint w < 65536" using uint_bounded [of w] by simp
  ultimately show ?thesis unfolding unat_eq_nat_uint by linarith
qed

lemma input_segment_shape:
  obtains k0 where "fst (input_segment dm k cnv c f w t s u len payload loc) = shrink_buffer k0"
  | k0 a where "fst (input_segment dm k cnv c f w t s u len payload loc)
                  = (shrink_buffer k0)\<lparr>acklist := a\<rparr>"
  | k0 where "fst (input_segment dm k cnv c f w t s u len payload loc)
                  = (shrink_buffer k0)\<lparr>probe := probe (shrink_buffer k0) OR IKCP_ASK_TELL\<rparr>"
  | k0 a seg where "fst (input_segment dm k cnv c f w t s u len payload loc)
                  = parse_data dm ((shrink_buffer k0)\<lparr>acklist := a\<rparr>) seg"
  using input_segment_result [of dm k cnv c f w t s u len payload loc] by metis

lemma snd_front_input_segment:
  "snd_front (fst (input_segment dm k cnv c f w t s u len payload loc))"
proof (cases rule: input_segment_shape [of dm k cnv c f w t s u len payload loc])
  case (1 k0)
  then show ?thesis by (simp add: snd_front_shrink_buffer)
next
  case (2 k0 a)
  have "snd_front ((shrink_buffer k0)\<lparr>acklist := a\<rparr>) = snd_front (shrink_buffer k0)"
    by (rule snd_front_cong) simp_all
  then show ?thesis using 2 by (simp add: snd_front_shrink_buffer)
next
  case (3 k0)
  have "snd_front ((shrink_buffer k0)\<lparr>probe := probe (shrink_buffer k0) OR IKCP_ASK_TELL\<rparr>)
        = snd_front (shrink_buffer k0)"
    by (rule snd_front_cong) simp_all
  then show ?thesis using 3 by (simp add: snd_front_shrink_buffer)
next
  case (4 k0 a seg)
  have "snd_front ((shrink_buffer k0)\<lparr>acklist := a\<rparr>) = snd_front (shrink_buffer k0)"
    by (rule snd_front_cong) simp_all
  then show ?thesis using 4 by (simp add: snd_front_parse_data snd_front_shrink_buffer)
qed

lemma buf_ok_input_segment:
  "buf_ok tight dm k \<Longrightarrow> buf_ok tight dm (fst (input_segment dm k cnv c f w t s u len payload loc))"
proof (rule input_segment_preserves, goal_cases)
  case 1 then show ?case .
next
  case (2 k w) then show ?case
    by (simp add: buf_ok_def snd_ok_def rcv_ok_def idle64_def unat_ucast_u16)
next
  case 3 then show ?case by (simp add: buf_ok_parse_una)
next
  case 4 then show ?case by (simp add: buf_ok_shrink_buffer)
next
  case 5 then show ?case by (simp add: buf_ok_update_ack)
next
  case 6 then show ?case by (simp add: buf_ok_parse_ack)
next
  case 7 then show ?case by (simp add: buf_ok_def snd_ok_def rcv_ok_def idle64_def)
next
  case 8 then show ?case by (simp add: buf_ok_parse_data)
next
  case 9 then show ?case by (simp add: buf_ok_def snd_ok_def rcv_ok_def idle64_def)
qed

lemma buf_inv_input:
  "buf_ok tight dm k \<and> snd_front k \<Longrightarrow>
   buf_ok tight dm (snd (input dm k dat sz)) \<and> snd_front (snd (input dm k dat sz))"
proof (rule input_preserves [where Q = "\<lambda>k. buf_ok tight dm k \<and> snd_front k"], goal_cases)
  case 1 then show ?case .
next
  case 2 then show ?case by (simp add: buf_ok_input_segment snd_front_input_segment)
next
  case 3 then show ?case by (simp add: buf_ok_parse_fast_ack snd_front_parse_fast_ack)
next
  case (4 k)
  have "buf_ok tight dm (grow_cwnd k) = buf_ok tight dm k" by (rule buf_ok_cong) (simp_all add: grow_cwnd_fields)
  moreover have "snd_front (grow_cwnd k) = snd_front k"
    by (rule snd_front_cong) (simp_all add: grow_cwnd_fields)
  ultimately show ?case using 4 by simp
qed

subsubsection \<open>Egress\<close>

lemma flush_segment_sn:
  "flush_segment dm w resent rtomin seg (k, st, ch, lost) = (seg', acc') \<Longrightarrow> sn seg' = sn seg"
  by (auto simp: flush_segment_def Let_def split: if_splits)

lemma flush_data_sn:
  "flush_data dm w resent rtomin segs acc = (segs', acc') \<Longrightarrow> map sn segs' = map sn segs"
proof (induction segs arbitrary: acc segs')
  case Nil
  then show ?case by simp
next
  case (Cons seg segs)
  obtain k st ch lost where acc: "acc = (k, st, ch, lost)" by (metis prod_cases4)
  obtain s1 acc1 where a: "flush_segment dm w resent rtomin seg (k, st, ch, lost) = (s1, acc1)"
    by (metis surj_pair)
  obtain segs2 where b: "flush_data dm w resent rtomin segs acc1 = (segs2, acc')"
    and s: "segs' = s1 # segs2"
    using Cons.prems a acc by (auto split: prod.splits)
  show ?case using Cons.IH [OF b] flush_segment_sn [OF a] s by simp
qed

text \<open>The loop that moves segments into \<open>snd_buf\<close> keeps it in order behind \<open>snd_una\<close>.\<close>

definition snd_window :: "u32 \<Rightarrow> segment list \<Rightarrow> u32 \<Rightarrow> bool" where
  "snd_window base buf nxt =
     (unat (nxt - base) \<le> 65535 \<and> in_order base (unat (nxt - base)) (map sn buf)
      \<and> (case buf of [] \<Rightarrow> base = nxt | s # _ \<Rightarrow> sn s = base))"

lemma promote_loop_64: "promote_loop LONG64 k cw w q buf nxt = (q, buf, nxt)"
  by (cases q) simp_all

lemma promote_loop_window:
  assumes "unat cw \<le> 65535"
  shows "promote_loop LONG32 k cw w q buf nxt = (q', buf', nxt') \<Longrightarrow>
         snd_window (snd_una k) buf nxt \<Longrightarrow> snd_window (snd_una k) buf' nxt'"
proof (induction q arbitrary: buf nxt)
  case Nil
  then show ?case by simp
next
  case (Cons newseg q)
  define base where "base = snd_una k"
  define n where "n = unat (nxt - base)"
  have w: "n \<le> 65535" "in_order base n (map sn buf)"
    "case buf of [] \<Rightarrow> base = nxt | s # _ \<Rightarrow> sn s = base"
    using Cons.prems(2) unfolding snd_window_def base_def n_def by simp_all
  have e: "nxt - (base + cw) = (nxt - base) - cw" by simp
  have d: "sint (nxt - (base + cw)) = int n - int (unat cw)"
    unfolding e n_def using w(1) assms by (intro sint_diff_small) (simp_all add: n_def)
  show ?case
  proof (cases "sint (nxt - (base + cw)) < 0")
    case False
    then have "buf' = buf" "nxt' = nxt" using Cons.prems(1) by (simp_all add: base_def)
    then show ?thesis using Cons.prems(2) by simp
  next
    case True
    then have lt: "n < unat cw" using d by linarith
    define seg where "seg = newseg\<lparr>conv := kcp_conv k, cmd := IKCP_CMD_PUSH, wnd := w,
                            ts := current k, sn := nxt, una := rcv_nxt k,
                            resendts := current k, rto := rx_rto k, fastack := 0,
                            xmit := 0\<rparr>"
    have p: "promote_loop LONG32 k cw w q (buf @ [seg]) (nxt + 1) = (q', buf', nxt')"
      using Cons.prems(1) True by (simp add: base_def seg_def)
    have eq: "nxt + 1 - base = (nxt - base) + 1" by simp
    have ad: "unat ((nxt - base) + 1) = unat (nxt - base) + unat (1 :: u32)"
      using lt assms unat_add_lem [of "nxt - base" "1 :: u32"] by (simp add: n_def)
    have n1: "unat (nxt + 1 - base) = n + 1" unfolding eq ad n_def by simp
    have sn: "sn seg = nxt" by (simp add: seg_def)
    have o1: "in_order base (n + 1) (map sn buf)" using w(2) by (rule in_order_mono) simp
    have o2: "list_all (\<lambda>x. unat (x - base) < n) (map sn buf)"
      using w(2) by (simp add: in_order_def)
    have o: "in_order base (n + 1) (map sn (buf @ [seg]))"
      using o1 o2 by (simp add: in_order_append in_order_Cons sn n_def [symmetric] list_all_iff)
    have f: "case buf @ [seg] of [] \<Rightarrow> base = nxt + 1 | s # _ \<Rightarrow> sn s = base"
      using w(3) sn by (cases buf) simp_all
    have "snd_window (snd_una k) (buf @ [seg]) (nxt + 1)"
      using o f lt assms n1 by (simp add: snd_window_def base_def [symmetric])
    from Cons.IH [OF p this] show ?thesis .
  qed
qed

lemma snd_window_iff:
  "snd_window (snd_una k) (snd_buf k) (snd_nxt k)
     = (unat (snd_nxt k - snd_una k) \<le> 65535
        \<and> in_order (snd_una k) (unat (snd_nxt k - snd_una k)) (map sn (snd_buf k)) \<and> snd_front k)"
  by (simp add: snd_window_def snd_front_def)

lemma probe_window_buffers:
  "rcv_wnd (probe_window dm k) = rcv_wnd k"
  "rcv_nxt (probe_window dm k) = rcv_nxt k"
  "rcv_buf (probe_window dm k) = rcv_buf k"
  by (simp_all add: probe_window_def Let_def)

lemma flush_cwnd_buffers:
  "rmt_wnd (flush_cwnd k cw resent change lost) = rmt_wnd k"
  "snd_nxt (flush_cwnd k cw resent change lost) = snd_nxt k"
  "snd_una (flush_cwnd k cw resent change lost) = snd_una k"
  "rcv_wnd (flush_cwnd k cw resent change lost) = rcv_wnd k"
  "rcv_nxt (flush_cwnd k cw resent change lost) = rcv_nxt k"
  "rcv_buf (flush_cwnd k cw resent change lost) = rcv_buf k"
  by (simp_all add: flush_cwnd_def Let_def)

lemma min_rmt_wnd:
  "unat (if nocwnd k = 0 then min (cwnd k) (min (snd_wnd k) (rmt_wnd k))
         else min (snd_wnd k) (rmt_wnd k)) \<le> unat (rmt_wnd k)"
proof -
  have "min (cwnd k) (min (snd_wnd k) (rmt_wnd k)) \<le> rmt_wnd k"
    by (simp add: min.coboundedI2)
  moreover have "min (snd_wnd k) (rmt_wnd k) \<le> rmt_wnd k" by simp
  ultimately show ?thesis by (simp add: word_le_nat_alt)
qed

lemma buf_inv_flush:
  assumes "buf_ok tight dm k \<and> snd_front k"
  shows "buf_ok tight dm (fst (flush dm k)) \<and> snd_front (fst (flush dm k))"
proof (cases "updated k = 0")
  case True
  then show ?thesis using assms by (simp add: flush_def)
next
  case False
  show ?thesis
  proof (rule flush_result [OF False, of dm], goal_cases)
    case (1 seg1 st1 k1 seg2 st2 seg3 st3 cw q buf nxt k3 resent rtomin segs k4 out staged change lost)
    define k' where "k' = fst (flush dm k)"
    have una1: "snd_una (k1\<lparr>probe := 0\<rparr>) = snd_una k" by (simp add: 1(2) probe_window_fields)
    have cw: "unat cw \<le> 65535"
      using min_rmt_wnd [of k] assms unfolding 1(7) buf_ok_def snd_ok_def by linarith
    have w0: "snd_window (snd_una k) (snd_buf k) (snd_nxt k)"
      using assms by (simp add: snd_window_iff buf_ok_def snd_ok_def)
    have w1: "snd_window (snd_una k) buf nxt \<and> (dm = LONG64 \<longrightarrow> buf = snd_buf k)"
    proof (cases dm)
      case LONG32
      show ?thesis
        using promote_loop_window [OF cw 1(8) [unfolded LONG32], unfolded una1, OF w0] LONG32
        by simp
    next
      case LONG64
      then show ?thesis using 1(8) w0 by (simp add: promote_loop_64)
    qed
    have "erase_retransmit k4 = erase_retransmit k3"
      using 1(12) by (rule erase_retransmit_flush_data)
    note f4 = erase_retransmit_fields [OF this]
    have sns: "map sn segs = map sn buf" using 1(12) by (rule flush_data_sn)
    have f: "rmt_wnd k' = rmt_wnd k" "snd_una k' = snd_una k" "snd_nxt k' = nxt"
      "map sn (snd_buf k') = map sn buf" "rcv_wnd k' = rcv_wnd k" "rcv_nxt k' = rcv_nxt k"
      "rcv_buf k' = rcv_buf k"
      unfolding k'_def 1(13)
      by (simp_all add: flush_cwnd_buffers flush_cwnd_probe f4 1(9) 1(2) probe_window_fields
            probe_window_buffers sns)
    have e: "(snd_buf k' = []) = (buf = [])" using f(4) by (metis map_is_Nil_conv)
    have fr: "snd_front k' = (case buf of [] \<Rightarrow> snd_una k = nxt | s # _ \<Rightarrow> sn s = snd_una k)"
      using f(4) by (cases buf; cases "snd_buf k'") (simp_all add: snd_front_def f)
    have "buf_ok tight dm k' \<and> snd_front k'"
    proof (cases dm)
      case LONG32
      then show ?thesis
        using assms w1 unfolding fr
        by (simp add: buf_ok_def snd_ok_def rcv_ok_def idle64_def f snd_window_def)
    next
      case LONG64
      then have b: "buf = []" "snd_buf k' = []"
        using assms w1 e by (simp_all add: buf_ok_def idle64_def)
      have "snd_una k = nxt \<and> unat (nxt - snd_una k) \<le> 65535"
        using w1 unfolding b(1) snd_window_def by simp
      then show ?thesis
        using assms LONG64 b unfolding fr
        by (simp add: buf_ok_def snd_ok_def rcv_ok_def idle64_def f)
    qed
    then show ?case by (simp add: k'_def)
  qed
qed

lemma buf_inv_update:
  assumes "buf_ok tight dm k \<and> snd_front k"
  shows "buf_ok tight dm (fst (update dm k c)) \<and> snd_front (fst (update dm k c))"
proof (rule update_result [of k c dm], goal_cases)
  case (1 k')
  note f = erase_egress_fields [OF 1(1)]
  have "buf_ok tight dm k' = buf_ok tight dm k" by (rule buf_ok_cong) (simp_all add: f 1)
  moreover have "snd_front k' = snd_front k" by (rule snd_front_cong) (simp_all add: f 1)
  ultimately have "buf_ok tight dm k' \<and> snd_front k'" using assms by simp
  then show ?case using 1(16) buf_inv_flush [of tight dm k'] by auto
qed

subsubsection \<open>The other operations\<close>

lemma receive_result:
  "snd (snd (receive k b l)) = k
   \<or> (\<exists>q p. snd (snd (receive k b l)) = (move_available (k\<lparr>rcv_queue := q\<rparr>))\<lparr>probe := p\<rparr>)"
proof -
  have x: "\<exists>p. y = y\<lparr>probe := p\<rparr>" for y :: kcp
    by (rule exI [of _ "probe y"]) simp
  show ?thesis
    using x by (auto simp: receive_def Let_def split: prod.splits)
qed

lemma buf_inv_receive:
  assumes "buf_ok tight dm k \<and> snd_front k"
  shows "buf_ok tight dm (snd (snd (receive k b l))) \<and> snd_front (snd (snd (receive k b l)))"
proof -
  from receive_result [of k b l] consider "snd (snd (receive k b l)) = k"
    | q p where "snd (snd (receive k b l)) = (move_available (k\<lparr>rcv_queue := q\<rparr>))\<lparr>probe := p\<rparr>"
    by blast
  then show ?thesis
  proof cases
    case 1
    then show ?thesis using assms by simp
  next
    case 2
    define k0 where "k0 = k\<lparr>rcv_queue := q\<rparr>"
    have "buf_ok tight dm k0 = buf_ok tight dm k" by (rule buf_ok_cong) (simp_all add: k0_def)
    then have "buf_ok tight dm (move_available k0)" using assms buf_ok_move_available by simp
    moreover have "buf_ok tight dm ((move_available k0)\<lparr>probe := p\<rparr>) = buf_ok tight dm (move_available k0)"
      by (rule buf_ok_cong) simp_all
    moreover have "snd_front ((move_available k0)\<lparr>probe := p\<rparr>) = snd_front k"
      by (rule snd_front_cong) (simp_all add: move_available_fields k0_def)
    ultimately show ?thesis using 2 assms by (simp add: k0_def)
  qed
qed

text \<open>
  The operations admitted: no \<open>set_window_size\<close> that leaves a segment of \<open>rcv_buf\<close> at
  or beyond the new \<open>rcv_nxt + rcv_wnd\<close>. Raising \<open>rcv_wnd\<close> is admitted, and so is
  lowering it as long as every buffered segment stays inside the window.
\<close>

fun keeps_window :: "kcp \<Rightarrow> operation \<Rightarrow> bool" where
  "keeps_window k (SetWindowSize sndwnd rcvwnd) =
     list_all (\<lambda>s. sint (sn s - (rcv_nxt k + rcv_wnd (set_window_size k sndwnd rcvwnd))) < 0)
       (rcv_buf k)"
| "keeps_window k x = True"

fun run_by :: "(kcp \<Rightarrow> operation \<Rightarrow> bool) \<Rightarrow> data_model \<Rightarrow> kcp \<Rightarrow> operation list \<Rightarrow> kcp option"
  where
  "run_by ok dm k [] = Some k"
| "run_by ok dm k (x # xs) =
     (if ok k x then (case step dm k x of None \<Rightarrow> None | Some k' \<Rightarrow> run_by ok dm k' xs)
      else None)"

lemma set_window_size_fields:
  "rmt_wnd (set_window_size k a b) = rmt_wnd k"
  "snd_nxt (set_window_size k a b) = snd_nxt k"
  "snd_una (set_window_size k a b) = snd_una k"
  "snd_buf (set_window_size k a b) = snd_buf k"
  "rcv_nxt (set_window_size k a b) = rcv_nxt k"
  "rcv_buf (set_window_size k a b) = rcv_buf k"
  by (simp_all add: set_window_size_def Let_def)

lemma set_window_size_bound:
  "unat (rcv_wnd k) < 2147483648 \<Longrightarrow> unat (rcv_wnd (set_window_size k a b)) < 2147483648"
proof -
  assume a: "unat (rcv_wnd k) < 2147483648"
  have "unat (max b IKCP_WND_RCV) < 2147483648" if "0 < sint b"
  proof -
    have "unat b = nat (sint b)" using that by (intro unat_sint_i32) simp
    then have "unat b < 2147483648" using sint_bounds_i32(2) [of b] by linarith
    then show ?thesis by (simp add: max_def IKCP_WND_RCV_def)
  qed
  then show ?thesis using a by (simp add: set_window_size_def Let_def)
qed

lemma in_window_signed:
  fixes x b w :: u32
  assumes "unat (x - b) < 2147483648" and "unat w < 2147483648"
  shows "(sint (x - (b + w)) < 0) = (unat (x - b) < unat w)"
proof -
  have e: "x - (b + w) = (x - b) - w" by simp
  have "sint (x - (b + w)) = int (unat (x - b)) - int (unat w)"
    unfolding e by (rule sint_diff_small [OF assms])
  then show ?thesis by linarith
qed

lemma buf_inv_set_window_size:
  assumes "buf_ok tight dm k \<and> snd_front k"
    and "tight \<longrightarrow> keeps_window k (SetWindowSize a b)"
  shows "buf_ok tight dm (set_window_size k a b) \<and> snd_front (set_window_size k a b)"
proof -
  define w where "w = rcv_wnd (set_window_size k a b)"
  have rn: "unat (rcv_wnd k) < 2147483648"
    and o: "in_order (rcv_nxt k) (rcv_bound tight (rcv_wnd k)) (map sn (rcv_buf k))"
    using assms(1) by (simp_all add: buf_ok_def rcv_ok_def)
  have wn: "unat w < 2147483648" unfolding w_def by (rule set_window_size_bound [OF rn])
  have "in_order (rcv_nxt k) (rcv_bound tight w) (map sn (rcv_buf k))"
  proof (cases tight)
    case False
    then show ?thesis using o by (simp add: rcv_bound_def)
  next
    case True
    have "unat (sn x - rcv_nxt k) < unat w" if x: "x \<in> set (rcv_buf k)" for x
    proof -
      have "unat (sn x - rcv_nxt k) < unat (rcv_wnd k)"
        using o x True by (simp add: rcv_bound_def in_order_def list_all_iff)
      then have u: "unat (sn x - rcv_nxt k) < 2147483648" using rn by linarith
      have "sint (sn x - (rcv_nxt k + w)) < 0"
        using assms(2) True x by (simp add: w_def list_all_iff)
      then show ?thesis using in_window_signed [OF u wn] by simp
    qed
    then show ?thesis using o True by (simp add: rcv_bound_def in_order_def list_all_iff)
  qed
  moreover have "snd_front (set_window_size k a b) = snd_front k"
    by (rule snd_front_cong) (simp_all add: set_window_size_fields)
  ultimately show ?thesis
    using assms(1) wn
    by (simp add: w_def buf_ok_def snd_ok_def rcv_ok_def idle64_def set_window_size_fields)
qed

lemma config_rcv_wnd:
  "rcv_wnd (snd (set_mtu k m)) = rcv_wnd k"
  "rcv_wnd (snd (get_interval k i)) = rcv_wnd k"
  "rcv_wnd (snd (no_delay k nd i resend nc)) = rcv_wnd k"
  "rcv_wnd (set_stream_mode k enable) = rcv_wnd k"
  "rcv_wnd (rx_min_rto k v) = rcv_wnd k"
  "rcv_wnd (log_mask k v) = rcv_wnd k"
  by (simp_all add: set_mtu_def get_interval_def no_delay_def
        set_stream_mode_def rx_min_rto_def log_mask_def Let_def)

lemma step_cases_window:
  assumes "step dm k x = Some k'"
  obtains (send) q where "k' = k\<lparr>snd_queue := q\<rparr>"
    | (receive) b l where "k' = snd (snd (receive k b l))"
    | (input) d n where "k' = snd (input dm k d n)"
    | (update) c where "k' = fst (update dm k c)"
    | (flush) "k' = fst (flush dm k)"
    | (window) a b where "x = SetWindowSize a b" "k' = set_window_size k a b"
    | (config) "erase_config k' = erase_config k" "rcv_wnd k' = rcv_wnd k"
proof (cases x)
  case (Send b l)
  then obtain r where "send k b l = Some (r, k')" using assms by auto
  then show ?thesis using send_frame send by blast
next
  case (Receive b l)
  then show ?thesis using assms receive by auto
next
  case (ReceiveVec b)
  then have "k' = snd (snd (receive_vec k b))" using assms by auto
  then show ?thesis using receive_vec_as_receive [of k b] receive config by metis
next
  case (Input d n)
  then show ?thesis using assms input by auto
next
  case (Update c)
  then show ?thesis using assms update by auto
next
  case Flush
  then show ?thesis using assms flush by auto
next
  case (Check c)
  then show ?thesis using assms config by auto
next
  case (SetMtu m)
  then show ?thesis using assms config by (auto simp: config_rcv_wnd)
next
  case (SetInterval i)
  then show ?thesis using assms config by (auto simp: config_rcv_wnd)
next
  case (NoDelay a b c d)
  then show ?thesis using assms config by (auto simp: config_rcv_wnd)
next
  case (SetWindowSize a b)
  then show ?thesis using assms window by auto
next
  case (SetStreamMode b)
  then show ?thesis using assms config by (auto simp: config_rcv_wnd)
next
  case (SetRxMinRto v)
  then show ?thesis using assms config by (auto simp: config_rcv_wnd)
next
  case (SetLogMask v)
  then show ?thesis using assms config by (auto simp: config_rcv_wnd)
qed

lemma buf_inv_step:
  assumes "buf_ok tight dm k \<and> snd_front k" and "step dm k x = Some k'"
    and "tight \<longrightarrow> keeps_window k x"
  shows "buf_ok tight dm k' \<and> snd_front k'"
  using assms(2)
proof (cases rule: step_cases_window)
  case (send q)
  have "buf_ok tight dm k' = buf_ok tight dm k" by (rule buf_ok_cong) (simp_all add: send)
  moreover have "snd_front k' = snd_front k" by (rule snd_front_cong) (simp_all add: send)
  ultimately show ?thesis using assms(1) by simp
next
  case (receive b l)
  then show ?thesis using buf_inv_receive [OF assms(1)] by simp
next
  case (input d n)
  then show ?thesis using buf_inv_input [OF assms(1)] by simp
next
  case (update c)
  then show ?thesis using buf_inv_update [OF assms(1)] by simp
next
  case flush
  then show ?thesis using buf_inv_flush [OF assms(1)] by simp
next
  case (window a b)
  then show ?thesis using buf_inv_set_window_size [OF assms(1), of a b] assms(3) by simp
next
  case config
  note f = erase_config_fields [OF config(1)]
  have "buf_ok tight dm k' = buf_ok tight dm k" by (rule buf_ok_cong) (simp_all add: f config(2))
  moreover have "snd_front k' = snd_front k" by (rule snd_front_cong) (simp_all add: f)
  ultimately show ?thesis using assms(1) by simp
qed

lemma buf_inv_reachable_by:
  assumes "\<And>k x. tight \<Longrightarrow> ok k x \<Longrightarrow> keeps_window k x"
  shows "reachable_by dm ok k \<Longrightarrow> buf_ok tight dm k \<and> snd_front k"
proof (induction rule: reachable_by.induct)
  case (init c)
  show ?case
    by (simp add: kcp_new_def buf_ok_def snd_ok_def rcv_ok_def rcv_bound_def idle64_def
          snd_front_def IKCP_defs)
next
  case (step k x k')
  show ?case
    by (rule buf_inv_step [OF step.IH step.hyps(3)]) (simp add: assms step.hyps(2))
qed

text \<open>A run all of whose operations are admitted by \<open>ok\<close>.\<close>

lemma run_by_reachable:
  "reachable_by dm ok k \<Longrightarrow> run_by ok dm k xs = Some k' \<Longrightarrow> reachable_by dm ok k'"
proof (induction xs arbitrary: k)
  case Nil
  then show ?case by simp
next
  case (Cons x xs)
  then obtain k1 where o: "ok k x" and s: "step dm k x = Some k1"
    and r: "run_by ok dm k1 xs = Some k'"
    by (auto split: option.splits if_splits)
  have "reachable_by dm ok k1" by (rule reachable_by.step [OF Cons.prems(1) o s])
  then show ?case using Cons.IH r by blast
qed

lemma run_by_run: "run_by ok dm k xs = Some k' \<Longrightarrow> run dm k xs = Some k'"
  by (induction xs arbitrary: k) (auto split: option.splits if_splits)

lemma buf_inv_reachable: "reachable dm k \<Longrightarrow> buf_ok False dm k \<and> snd_front k"
  unfolding reachable_def by (rule buf_inv_reachable_by) simp

lemma buf_inv_keeps_window: "reachable_by dm keeps_window k \<Longrightarrow> buf_ok True dm k \<and> snd_front k"
  by (rule buf_inv_reachable_by) simp

text \<open>
  Claim C1, amended. After construction and after every public operation: \<open>snd_buf\<close> is
  strictly increasing in \<open>sn\<close> (signed difference), its front segment has
  \<open>sn == snd_una\<close> when it is non-empty and \<open>snd_una == snd_nxt\<close> when it is empty;
  \<open>rcv_buf\<close> is strictly increasing in \<open>sn\<close>, has no duplicate \<open>sn\<close>, and every \<open>sn\<close>
  in it is at or after \<open>rcv_nxt\<close> by signed difference. Every \<open>sn\<close> in \<open>rcv_buf\<close> is
  before \<open>rcv_nxt + rcv_wnd\<close> as well, as long as no \<open>set_window_size\<close> has lowered
  \<open>rcv_wnd\<close> so far that a segment then in \<open>rcv_buf\<close> was left outside the new window.
\<close>

theorem buffers_in_order:
  assumes "reachable dm k"
  shows "sorted_wrt (\<lambda>a b. 0 < sint (sn b - sn a)) (snd_buf k)
         \<and> (case snd_buf k of [] \<Rightarrow> snd_una k = snd_nxt k | s # _ \<Rightarrow> sn s = snd_una k)
         \<and> sorted_wrt (\<lambda>a b. 0 < sint (sn b - sn a)) (rcv_buf k)
         \<and> distinct (map sn (rcv_buf k))
         \<and> list_all (\<lambda>s. 0 \<le> sint (sn s - rcv_nxt k)) (rcv_buf k)
         \<and> (reachable_by dm keeps_window k \<longrightarrow>
              list_all (\<lambda>s. sint (sn s - (rcv_nxt k + rcv_wnd k)) < 0) (rcv_buf k))"
proof -
  have i: "buf_ok False dm k" "snd_front k" using buf_inv_reachable [OF assms] by simp_all
  have s: "in_order (snd_una k) (unat (snd_nxt k - snd_una k)) (map sn (snd_buf k))"
    and sn: "unat (snd_nxt k - snd_una k) \<le> 2147483648"
    using i(1) by (simp_all add: buf_ok_def snd_ok_def)
  have r: "in_order (rcv_nxt k) 2147483648 (map sn (rcv_buf k))"
    and rn: "unat (rcv_wnd k) < 2147483648"
    using i(1) by (simp_all add: buf_ok_def rcv_ok_def rcv_bound_def)
  have 1: "sorted_wrt (\<lambda>a b. 0 < sint (sn b - sn a)) (snd_buf k)"
    using in_order_signed(1) [OF s sn] by (simp add: sorted_wrt_map)
  have 2: "case snd_buf k of [] \<Rightarrow> snd_una k = snd_nxt k | s # _ \<Rightarrow> sn s = snd_una k"
    using i(2) by (simp add: snd_front_def)
  have 3: "sorted_wrt (\<lambda>a b. 0 < sint (sn b - sn a)) (rcv_buf k)"
    using in_order_signed(1) [OF r] by (simp add: sorted_wrt_map)
  have 4: "distinct (map sn (rcv_buf k))"
    using in_order_signed(2) [OF r] by simp
  have u: "unat (sn x - rcv_nxt k) < 2147483648" if "x \<in> set (rcv_buf k)" for x
    using r that by (simp add: in_order_def list_all_iff)
  have 5: "0 \<le> sint (sn x - rcv_nxt k)" if x: "x \<in> set (rcv_buf k)" for x
  proof -
    have z: "unat (0 :: u32) < 2147483648" by simp
    have "sint (sn x - rcv_nxt k - 0) = int (unat (sn x - rcv_nxt k)) - int (unat (0 :: u32))"
      by (rule sint_diff_small [OF u [OF x] z])
    then show ?thesis by simp
  qed
  have 6: "sint (sn x - (rcv_nxt k + rcv_wnd k)) < 0"
    if t: "reachable_by dm keeps_window k" and x: "x \<in> set (rcv_buf k)" for x
  proof -
    have "in_order (rcv_nxt k) (unat (rcv_wnd k)) (map sn (rcv_buf k))"
      using buf_inv_keeps_window [OF t] by (simp add: buf_ok_def rcv_ok_def rcv_bound_def)
    then have "unat (sn x - rcv_nxt k) < unat (rcv_wnd k)"
      using x by (simp add: in_order_def list_all_iff)
    then show ?thesis using in_window_signed [OF u [OF x] rn] by simp
  qed
  show ?thesis using 1 2 3 4 5 6 by (simp add: list_all_iff)
qed

definition push_datagram :: "u8 \<Rightarrow> u8 list" where
  "push_datagram s = [1, 0, 0, 0, 81, 0, 128, 0, 0, 0, 0, 0, s, 0, 0, 0, 0, 0, 0, 0, 0, 0, 0, 0]"

definition ordered_run :: "operation list" where
  "ordered_run = [SetWindowSize 0 256, NoDelay 0 100 0 1,
                  Send (Some [7]) 1, Send (Some [8]) 1, Send (Some [9]) 1, Update 0,
                  Input (Some (push_datagram 3)) 24, Input (Some (push_datagram 1)) 24,
                  Input (Some (push_datagram 2)) 24, SetWindowSize 0 128]"

definition shrunk_window_state :: kcp where
  "shrunk_window_state =
     set_window_size
       (snd (input LONG32 (set_window_size (kcp_new 1) 0 256) (Some (push_datagram 200)) 24))
       0 128"

theorem buffers_in_order_witness:
  "\<exists>k. run LONG32 (kcp_new 1) ordered_run = Some k
       \<and> reachable LONG32 k \<and> reachable_by LONG32 keeps_window k
       \<and> map sn (snd_buf k) = [0, 1, 2] \<and> snd_una k = 0
       \<and> map sn (rcv_buf k) = [1, 2, 3] \<and> rcv_nxt k = 0 \<and> rcv_wnd k = 128
       \<and> sorted_wrt (\<lambda>a b. 0 < sint (sn b - sn a)) (snd_buf k)
       \<and> (case snd_buf k of [] \<Rightarrow> snd_una k = snd_nxt k | s # _ \<Rightarrow> sn s = snd_una k)
       \<and> sorted_wrt (\<lambda>a b. 0 < sint (sn b - sn a)) (rcv_buf k)
       \<and> distinct (map sn (rcv_buf k))
       \<and> list_all (\<lambda>s. 0 \<le> sint (sn s - rcv_nxt k)) (rcv_buf k)
       \<and> list_all (\<lambda>s. sint (sn s - (rcv_nxt k + rcv_wnd k)) < 0) (rcv_buf k)"
proof -
  have "map_option (\<lambda>k. (map sn (snd_buf k), snd_una k, map sn (rcv_buf k), rcv_nxt k, rcv_wnd k))
          (run_by keeps_window LONG32 (kcp_new 1) ordered_run)
        = Some ([0, 1, 2], 0, [1, 2, 3], 0, 128)"
    unfolding ordered_run_def push_datagram_def by code_simp
  then obtain k where k: "run_by keeps_window LONG32 (kcp_new 1) ordered_run = Some k"
    and f: "map sn (snd_buf k) = [0, 1, 2]" "snd_una k = 0" "map sn (rcv_buf k) = [1, 2, 3]"
      "rcv_nxt k = 0" "rcv_wnd k = 128"
    by auto
  have t: "reachable_by LONG32 keeps_window k"
    by (rule run_by_reachable [OF reachable_by.init k])
  have r: "reachable LONG32 k"
    unfolding reachable_def
    by (rule run_reachable [OF reachable_by.init run_by_run [OF k]])
  show ?thesis
    using buffers_in_order [OF r] t r f run_by_run [OF k]
    by (intro exI [of _ k]) (simp only: simp_thms)
qed

text \<open>
  The claim as stated fails for the upper bound. \<open>set_window_size\<close> stores the new
  \<open>rcv_wnd\<close> and leaves \<open>rcv_buf\<close> as it is: with \<open>rcv_wnd\<close> raised to 256 and the
  segment 200 buffered, lowering \<open>rcv_wnd\<close> to 128 leaves that segment beyond
  \<open>rcv_nxt + rcv_wnd\<close>.
\<close>

lemma shrunk_window_state_reached: "reachable LONG32 shrunk_window_state"
proof -
  have 1: "reachable_by LONG32 (\<lambda>k x. True) (set_window_size (kcp_new 1) 0 256)"
    by (rule reachable_by.step [OF reachable_by.init, of _ _ "SetWindowSize 0 256"]) simp_all
  have 2: "reachable_by LONG32 (\<lambda>k x. True)
             (snd (input LONG32 (set_window_size (kcp_new 1) 0 256) (Some (push_datagram 200)) 24))"
    by (rule reachable_by.step [OF 1, of "Input (Some (push_datagram 200)) 24"]) simp_all
  show ?thesis
    unfolding reachable_def shrunk_window_state_def
    by (rule reachable_by.step [OF 2, of "SetWindowSize 0 128"]) simp_all
qed

theorem buffers_in_order_counterexample:
  "reachable LONG32 shrunk_window_state
   \<and> run LONG32 (kcp_new 1)
        [SetWindowSize 0 256, Input (Some (push_datagram 200)) 24, SetWindowSize 0 128]
       = Some shrunk_window_state
   \<and> map sn (rcv_buf shrunk_window_state) = [200]
   \<and> rcv_nxt shrunk_window_state = 0 \<and> rcv_wnd shrunk_window_state = 128
   \<and> \<not> list_all (\<lambda>s. 0 \<le> sint (sn s - rcv_nxt shrunk_window_state)
                       \<and> sint (sn s - (rcv_nxt shrunk_window_state
                                        + rcv_wnd shrunk_window_state)) < 0)
          (rcv_buf shrunk_window_state)
   \<and> run_by keeps_window LONG32 (kcp_new 1)
        [SetWindowSize 0 256, Input (Some (push_datagram 200)) 24, SetWindowSize 0 128] = None"
proof -
  have d: "run_by keeps_window LONG32 (kcp_new 1)
        [SetWindowSize 0 256, Input (Some (push_datagram 200)) 24, SetWindowSize 0 128] = None"
    unfolding push_datagram_def by code_simp
  have a: "map sn (rcv_buf shrunk_window_state) = [200]"
    "rcv_nxt shrunk_window_state = 0" "rcv_wnd shrunk_window_state = 128"
    unfolding shrunk_window_state_def push_datagram_def by code_simp+
  have b: "\<not> list_all (\<lambda>s. 0 \<le> sint (sn s - rcv_nxt shrunk_window_state)
                       \<and> sint (sn s - (rcv_nxt shrunk_window_state
                                        + rcv_wnd shrunk_window_state)) < 0)
          (rcv_buf shrunk_window_state)"
    unfolding shrunk_window_state_def push_datagram_def by code_simp
  have c: "run LONG32 (kcp_new 1)
        [SetWindowSize 0 256, Input (Some (push_datagram 200)) 24, SetWindowSize 0 128]
       = Some shrunk_window_state"
    by (simp add: shrunk_window_state_def)
  show ?thesis using a b c d shrunk_window_state_reached by simp
qed

end
